theory Spec2Isabelle
  imports Complex_Main "HOL-Library.AList"
begin

section \<open>Data model\<close>

text \<open>
  helmhound works on decoded YAML: Go values of static type \<open>interface{}\<close> whose dynamic
  type is \<open>nil\<close>, \<open>string\<close>, one of the integer types, \<open>float32\<close>/\<open>float64\<close>, \<open>bool\<close>,
  \<open>[]interface{}\<close> or \<open>map[string]interface{}\<close>. The code tells these apart by type
  switches and by \<open>reflect.TypeOf\<close>, so the model keeps the dynamic type in the value.

  \<^item> Strings are byte lists. The source iterates over runes and re-encodes them, which is
    the identity on valid UTF-8; \<open>.\<close>, \<open>[\<close> and \<open>]\<close> are single bytes.
  \<^item> An integer is its kind and its mathematical value; \<open>v + 1\<close> wraps to the kind's width
    (\<open>int\<close> and \<open>uint\<close> are taken as 64 bits wide).
  \<^item> A float is NaN, an infinity (the flag is the sign) or a finite rational. Only Go's
    \<open>==\<close> on floats and the conversion \<open>int(v)\<close> are used by the code.
  \<^item> A Go map is an association list; the keys of a Go map are unique, which is the
    predicate \<open>wf\<close>. Go iterates over a map in an unspecified order; the model iterates in
    list order, and the theorems below speak about sets of results wherever the order of
    iteration shows.
\<close>

datatype ikind =
  KInt | KInt8 | KInt16 | KInt32 | KInt64 | KUint | KUint8 | KUint16 | KUint32 | KUint64

datatype fkind = KFloat32 | KFloat64

datatype gofloat = FNaN | FInf bool | FFin rat

datatype val =
    VNil
  | VStr string
  | VInt ikind int
  | VFloat fkind gofloat
  | VBool bool
  | VSeq "val list"
  | VMap "(string \<times> val) list"

fun wf :: "val \<Rightarrow> bool" where
  "wf (VMap kvs) = (distinct (map fst kvs) \<and> list_all (\<lambda>kv. wf (snd kv)) kvs)"
| "wf (VSeq xs) = list_all wf xs"
| "wf _ = True"

text \<open>Errors. The source builds them with \<open>fmt.Errorf\<close>; a run-time panic is a value too.\<close>

datatype ValueType =
  ValueTypeString | ValueTypeInt | ValueTypeBool | ValueTypeSlice | ValueTypeMap
  | ValueTypeUnknown

datatype error =
    PathNotFound string      \<comment> \<open>\<open>key '%s' not found\<close>\<close>
  | NotTraversable string    \<comment> \<open>\<open>cannot access key '%s' on non-map type\<close>,
                                 \<open>cannot navigate through non-map value at key '%s'\<close>\<close>
  | EmptyPath                \<comment> \<open>\<open>empty path\<close>\<close>
  | ExpectedValue ValueType  \<comment> \<open>\<open>expected ... value at path %s\<close>\<close>
  | UnsupportedType ValueType \<comment> \<open>\<open>unsupported value type for modification\<close>\<close>
  | RuntimePanic             \<comment> \<open>index out of range\<close>

section \<open>Number rendering\<close>

text \<open>\<open>strconv.Itoa\<close> and the verb \<open>%d\<close>: decimal digits, with a sign for negative numbers.\<close>

fun natDigits :: "nat \<Rightarrow> string" where
  "natDigits n =
     (if n < 10 then [char_of (48 + n)]
      else natDigits (n div 10) @ [char_of (48 + n mod 10)])"

declare natDigits.simps [simp del]

definition itoa :: "int \<Rightarrow> string" where
  "itoa n = (if n < 0 then CHR ''-'' # natDigits (nat (- n)) else natDigits (nat n))"

text \<open>
  \<open>string(rune(r))\<close>: the UTF-8 encoding of the code point \<open>r\<close>, and of U+FFFD when \<open>r\<close> is
  not a valid code point. \<open>rune\<close> is \<open>int32\<close>; the conversion from \<open>int\<close> keeps the low 32
  bits.
\<close>

definition toRune :: "int \<Rightarrow> int" where
  "toRune n = (n + 2147483648) mod 4294967296 - 2147483648"

definition encodeRune :: "int \<Rightarrow> string" where
  "encodeRune r =
     (if r < 0 \<or> 1114111 < r \<or> (55296 \<le> r \<and> r \<le> 57343)
        then [char_of (239::int), char_of (191::int), char_of (189::int)]
      else if r < 128 then [char_of r]
      else if r < 2048 then [char_of (192 + r div 64), char_of (128 + r mod 64)]
      else if r < 65536
        then [char_of (224 + r div 4096), char_of (128 + (r div 64) mod 64),
              char_of (128 + r mod 64)]
      else [char_of (240 + r div 262144), char_of (128 + (r div 4096) mod 64),
            char_of (128 + (r div 64) mod 64), char_of (128 + r mod 64)])"

section \<open>pkg/helmwrap/values.go\<close>

subsection \<open>extractPaths\<close>

text \<open>
  \<open>extractPaths(prefix, data, paths)\<close> appends to \<open>*paths\<close>; the model returns what one call
  appends, in order. The two \<open>range\<close> loops are the functions over the remaining
  entries; the slice loop carries the index \<open>i\<close>.
\<close>

fun extractPaths :: "string \<Rightarrow> val \<Rightarrow> string list"
  and extractMapPaths :: "string \<Rightarrow> (string \<times> val) list \<Rightarrow> string list"
  and extractSlicePaths :: "string \<Rightarrow> nat \<Rightarrow> val list \<Rightarrow> string list" where
  "extractPaths prefix (VMap v) = extractMapPaths prefix v"
| "extractPaths prefix (VSeq v) = extractSlicePaths prefix 0 v"
| "extractPaths prefix _ = []"
| "extractMapPaths prefix [] = []"
| "extractMapPaths prefix ((key, value) # rest) =
     (let fullPath = (if prefix \<noteq> [] then prefix @ ''.'' @ key else key)
      in fullPath # extractPaths fullPath value @ extractMapPaths prefix rest)"
| "extractSlicePaths prefix i [] = []"
| "extractSlicePaths prefix i (item # rest) =
     (let indexPath = prefix @ ''['' @ encodeRune (toRune (int i + 48)) @ '']''
      in indexPath # extractPaths indexPath item @ extractSlicePaths prefix (Suc i) rest)"

text \<open>\<open>ExtractValuePaths\<close> after the YAML text has been decoded into \<open>data\<close>.\<close>

definition ExtractValuePaths :: "(string \<times> val) list \<Rightarrow> string list" where
  "ExtractValuePaths data = extractPaths [] (VMap data)"

subsection \<open>splitPath and getValueAtPath\<close>

text \<open>The loop of \<open>splitPath\<close> over the characters, with its two variables.\<close>

fun splitLoop :: "string \<Rightarrow> string list \<Rightarrow> string \<Rightarrow> string list" where
  "splitLoop [] parts current = (if current \<noteq> [] then parts @ [current] else parts)"
| "splitLoop (c # cs) parts current =
     (if c = CHR ''.''
      then (if current \<noteq> [] then splitLoop cs (parts @ [current]) []
            else splitLoop cs parts current)
      else splitLoop cs parts (current @ [c]))"

definition splitPath :: "string \<Rightarrow> string list" where
  "splitPath path = (if path = [] then [] else splitLoop path [] [])"

text \<open>The loop of \<open>getValueAtPath\<close> over the keys.\<close>

fun getLoop :: "string list \<Rightarrow> val \<Rightarrow> error + val" where
  "getLoop [] current = Inr current"
| "getLoop (key # keys) current =
     (case current of
        VMap v \<Rightarrow>
          (case map_of v key of
             Some val \<Rightarrow> getLoop keys val
           | None \<Rightarrow> Inl (PathNotFound key))
      | _ \<Rightarrow> Inl (NotTraversable key))"

definition getValueAtPath :: "val \<Rightarrow> string \<Rightarrow> error + val" where
  "getValueAtPath data path =
     (if path = [] then Inr data else getLoop (splitPath path) data)"

fun determineValueType :: "val \<Rightarrow> ValueType" where
  "determineValueType (VStr _) = ValueTypeString"
| "determineValueType (VInt _ _) = ValueTypeInt"
| "determineValueType (VFloat _ _) = ValueTypeInt"
| "determineValueType (VBool _) = ValueTypeBool"
| "determineValueType (VSeq _) = ValueTypeSlice"
| "determineValueType (VMap _) = ValueTypeMap"
| "determineValueType VNil = ValueTypeUnknown"

section \<open>pkg/yamldiff/diff.go\<close>

text \<open>
  \<open>reflect.TypeOf\<close> on a non-nil value, Go's \<open>==\<close> on floats (false when either side is NaN),
  and \<open>reflect.DeepEqual\<close> on the operands that the default branch of the differ can
  receive: two non-nil values of one dynamic type that is neither a map nor a slice.
\<close>

datatype gotype = TString | TInt ikind | TFloat fkind | TBool | TSlice | TMap

fun typeOf :: "val \<Rightarrow> gotype option" where
  "typeOf VNil = None"
| "typeOf (VStr _) = Some TString"
| "typeOf (VInt k _) = Some (TInt k)"
| "typeOf (VFloat k _) = Some (TFloat k)"
| "typeOf (VBool _) = Some TBool"
| "typeOf (VSeq _) = Some TSlice"
| "typeOf (VMap _) = Some TMap"

fun floatEq :: "gofloat \<Rightarrow> gofloat \<Rightarrow> bool" where
  "floatEq FNaN _ = False"
| "floatEq _ FNaN = False"
| "floatEq x y = (x = y)"

fun deepEqual :: "val \<Rightarrow> val \<Rightarrow> bool" where
  "deepEqual (VStr a) (VStr b) = (a = b)"
| "deepEqual (VInt k a) (VInt k' b) = (k = k' \<and> a = b)"
| "deepEqual (VFloat k a) (VFloat k' b) = (k = k' \<and> floatEq a b)"
| "deepEqual (VBool a) (VBool b) = (a = b)"
| "deepEqual _ _ = False"

definition buildPath :: "string \<Rightarrow> string \<Rightarrow> string" where
  "buildPath basePath key = (if basePath = [] then key else basePath @ ''.'' @ key)"

definition buildArrayPath :: "string \<Rightarrow> nat \<Rightarrow> string" where
  "buildArrayPath basePath index =
     (let indexStr = ''['' @ itoa (int index) @ '']''
      in if basePath = [] then indexStr else basePath @ indexStr)"

text \<open>
  The paths-only differ. \<open>*diffs\<close> is the list \<open>ds\<close>, passed in and returned.
  \<open>compareMap\<close> runs two loops: \<open>compareMapLeft\<close> over the entries of the left map, then
  \<open>compareMapRight\<close> over those of the right map. \<open>compareSliceLoop\<close> is the loop of
  \<open>compareSlice\<close> at index \<open>i\<close> with the elements from \<open>i\<close> on of both slices:
  \<open>i >= len(left)\<close> is the left remainder being empty. The type assertions on \<open>right\<close>
  cannot fail, since the types are equal at that point.
\<close>

fun compareMapRight :: "string \<Rightarrow> (string \<times> val) list \<Rightarrow> (string \<times> val) list \<Rightarrow> string list \<Rightarrow> string list" where
  "compareMapRight basePath left [] ds = ds"
| "compareMapRight basePath left ((key, _) # rest) ds =
     compareMapRight basePath left rest
       (if map_of left key = None then ds @ [buildPath basePath key] else ds)"

fun compareValues :: "string \<Rightarrow> val \<Rightarrow> val \<Rightarrow> string list \<Rightarrow> string list"
  and compareMapLeft :: "string \<Rightarrow> (string \<times> val) list \<Rightarrow> (string \<times> val) list \<Rightarrow> string list \<Rightarrow> string list"
  and compareSliceLoop :: "string \<Rightarrow> nat \<Rightarrow> val list \<Rightarrow> val list \<Rightarrow> string list \<Rightarrow> string list" where
  "compareValues path left right ds =
     (if left = VNil \<and> right = VNil then ds
      else if left = VNil \<or> right = VNil then ds @ [path]
      else if typeOf left \<noteq> typeOf right then ds @ [path]
      else (case left of
              VMap leftVal \<Rightarrow>
                (case right of
                   VMap rightVal \<Rightarrow>
                     compareMapRight path leftVal rightVal
                       (compareMapLeft path leftVal rightVal ds)
                 | _ \<Rightarrow> ds)
            | VSeq leftVal \<Rightarrow>
                (case right of
                   VSeq rightVal \<Rightarrow> compareSliceLoop path 0 leftVal rightVal ds
                 | _ \<Rightarrow> ds)
            | _ \<Rightarrow> if \<not> deepEqual left right then ds @ [path] else ds))"
| "compareMapLeft basePath [] right ds = ds"
| "compareMapLeft basePath ((key, leftValue) # rest) right ds =
     (let newPath = buildPath basePath key
      in compareMapLeft basePath rest right
           (case map_of right key of
              Some rightValue \<Rightarrow> compareValues newPath leftValue rightValue ds
            | None \<Rightarrow> ds @ [newPath]))"
| "compareSliceLoop basePath i [] [] ds = ds"
| "compareSliceLoop basePath i [] (r # rs) ds =
     compareSliceLoop basePath (Suc i) [] rs (ds @ [buildArrayPath basePath i])"
| "compareSliceLoop basePath i (l # ls) [] ds =
     compareSliceLoop basePath (Suc i) ls [] (ds @ [buildArrayPath basePath i])"
| "compareSliceLoop basePath i (l # ls) (r # rs) ds =
     compareSliceLoop basePath (Suc i) ls rs
       (compareValues (buildArrayPath basePath i) l r ds)"


definition CompareYAML :: "(string \<times> val) list \<Rightarrow> (string \<times> val) list \<Rightarrow> string list" where
  "CompareYAML left right = compareValues [] (VMap left) (VMap right) []"

text \<open>
  The differ with values. \<open>diffs\<close> is a Go map from path to \<open>DiffValue\<close>;
  \<open>diffs[path] = d\<close> is \<open>AList.update\<close>.
\<close>

datatype DiffType = DiffTypeModified | DiffTypeAdded | DiffTypeRemoved

record DiffValue =
  Left :: val
  Right :: val
  Type :: DiffType

type_synonym diffmap = "(string \<times> DiffValue) list"

fun findMapRight :: "string \<Rightarrow> (string \<times> val) list \<Rightarrow> (string \<times> val) list \<Rightarrow> diffmap \<Rightarrow> diffmap" where
  "findMapRight basePath left [] ds = ds"
| "findMapRight basePath left ((key, rightValue) # rest) ds =
     findMapRight basePath left rest
       (if map_of left key = None
        then AList.update (buildPath basePath key)
               \<lparr>Left = VNil, Right = rightValue, Type = DiffTypeAdded\<rparr> ds
        else ds)"

fun findDifferencesWithValues :: "string \<Rightarrow> val \<Rightarrow> val \<Rightarrow> diffmap \<Rightarrow> diffmap"
  and findMapLeft :: "string \<Rightarrow> (string \<times> val) list \<Rightarrow> (string \<times> val) list \<Rightarrow> diffmap \<Rightarrow> diffmap"
  and findSliceLoop :: "string \<Rightarrow> nat \<Rightarrow> val list \<Rightarrow> val list \<Rightarrow> diffmap \<Rightarrow> diffmap" where
  "findDifferencesWithValues path left right ds =
     (if left = VNil \<and> right = VNil then ds
      else if left = VNil
        then AList.update path \<lparr>Left = VNil, Right = right, Type = DiffTypeAdded\<rparr> ds
      else if right = VNil
        then AList.update path \<lparr>Left = left, Right = VNil, Type = DiffTypeRemoved\<rparr> ds
      else if typeOf left \<noteq> typeOf right
        then AList.update path \<lparr>Left = left, Right = right, Type = DiffTypeModified\<rparr> ds
      else (case left of
              VMap leftVal \<Rightarrow>
                (case right of
                   VMap rightVal \<Rightarrow>
                     findMapRight path leftVal rightVal
                       (findMapLeft path leftVal rightVal ds)
                 | _ \<Rightarrow> ds)
            | VSeq leftVal \<Rightarrow>
                (case right of
                   VSeq rightVal \<Rightarrow> findSliceLoop path 0 leftVal rightVal ds
                 | _ \<Rightarrow> ds)
            | _ \<Rightarrow>
                if \<not> deepEqual left right
                then AList.update path
                       \<lparr>Left = left, Right = right, Type = DiffTypeModified\<rparr> ds
                else ds))"
| "findMapLeft basePath [] right ds = ds"
| "findMapLeft basePath ((key, leftValue) # rest) right ds =
     (let newPath = buildPath basePath key
      in findMapLeft basePath rest right
           (case map_of right key of
              Some rightValue \<Rightarrow> findDifferencesWithValues newPath leftValue rightValue ds
            | None \<Rightarrow>
                AList.update newPath
                  \<lparr>Left = leftValue, Right = VNil, Type = DiffTypeRemoved\<rparr> ds))"
| "findSliceLoop basePath i [] [] ds = ds"
| "findSliceLoop basePath i [] (r # rs) ds =
     findSliceLoop basePath (Suc i) [] rs
       (AList.update (buildArrayPath basePath i)
          \<lparr>Left = VNil, Right = r, Type = DiffTypeAdded\<rparr> ds)"
| "findSliceLoop basePath i (l # ls) [] ds =
     findSliceLoop basePath (Suc i) ls []
       (AList.update (buildArrayPath basePath i)
          \<lparr>Left = l, Right = VNil, Type = DiffTypeRemoved\<rparr> ds)"
| "findSliceLoop basePath i (l # ls) (r # rs) ds =
     findSliceLoop basePath (Suc i) ls rs
       (findDifferencesWithValues (buildArrayPath basePath i) l r ds)"

definition FindDifferencesWithValues :: "(string \<times> val) list \<Rightarrow> (string \<times> val) list \<Rightarrow> diffmap" where
  "FindDifferencesWithValues left right = findDifferencesWithValues [] (VMap left) (VMap right) []"

section \<open>pkg/helmwrap/values.go: FormatValueReferences\<close>

record ValueReference =
  File :: string
  Line :: int
  Content :: string
  FullLine :: string
  ManifestPath :: string

text \<open>
  \<open>fileGroups\<close> is a Go map from file name to the references of that file; the first loop
  of \<open>FormatValueReferences\<close> fills it.
\<close>

type_synonym fileGroups = "(string \<times> ValueReference list) list"

fun groupLoop :: "ValueReference list \<Rightarrow> fileGroups \<Rightarrow> fileGroups" where
  "groupLoop [] fileGroups = fileGroups"
| "groupLoop (ref # rest) fileGroups =
     groupLoop rest
       (AList.update (File ref)
          ((case map_of fileGroups (File ref) of None \<Rightarrow> [] | Some refs \<Rightarrow> refs) @ [ref])
          fileGroups)"

text \<open>
  The two lines written with \<open>fmt.Sprintf\<close>: the header \<open>=== %s ===\<close> and the reference
  \<open>%dL: %s\<close>, each ended by a newline.
\<close>

definition headerLine :: "string \<Rightarrow> string" where
  "headerLine fileName = ''=== '' @ fileName @ '' ==='' @ [CHR 0x0A]"

definition refLine :: "ValueReference \<Rightarrow> string" where
  "refLine ref =
     (let manifestInfo = (if ManifestPath ref = [] then Content ref else ManifestPath ref)
      in itoa (Line ref) @ ''L: '' @ manifestInfo @ [CHR 0x0A])"

text \<open>
  The second loop ranges over \<open>fileGroups\<close>, a Go map, so the runtime chooses the order in
  which the keys are visited. The model takes this order as the argument \<open>order\<close>; each
  key is visited once (\<open>iterationOf\<close> below). \<open>result\<close> is the \<open>strings.Builder\<close>.
\<close>

fun writeRefs :: "ValueReference list \<Rightarrow> string \<Rightarrow> string" where
  "writeRefs [] result = result"
| "writeRefs (ref # rest) result = writeRefs rest (result @ refLine ref)"

fun writeGroups :: "string list \<Rightarrow> fileGroups \<Rightarrow> string \<Rightarrow> string" where
  "writeGroups [] fileGroups result = result"
| "writeGroups (fileName # rest) fileGroups result =
     writeGroups rest fileGroups
       (case map_of fileGroups fileName of
          Some refs \<Rightarrow> writeRefs refs (result @ headerLine fileName)
        | None \<Rightarrow> result)"

definition FormatValueReferences :: "string list \<Rightarrow> ValueReference list \<Rightarrow> string" where
  "FormatValueReferences order references =
     (if length references = 0 then ''No references found for the specified value.''
      else writeGroups order (groupLoop references []) [])"

section \<open>pkg/helmwrap/client.go: copyMap, setValueAtPath, modifyValueAtPath\<close>

text \<open>
  These functions write into Go maps. In this section the map written to is passed in and
  returned, so a function of the model yields the contents the map has after the call. Which
  map objects are written, as opposed to what they hold afterwards, is the subject of the
  store model further below.

  \<open>v + 1\<close> on an integer of kind \<open>k\<close> wraps (\<open>wrapInt\<close>). \<open>int(v)\<close> on a float truncates
  toward zero; where the result does not fit (and for NaN and the infinities) Go leaves
  the value to the implementation, and the model takes the amd64 result \<open>-2^63\<close>. No
  theorem below depends on that choice.
\<close>

fun intBits :: "ikind \<Rightarrow> nat" where
  "intBits KInt = 64" | "intBits KInt8 = 8" | "intBits KInt16 = 16" | "intBits KInt32 = 32"
| "intBits KInt64 = 64" | "intBits KUint = 64" | "intBits KUint8 = 8" | "intBits KUint16 = 16"
| "intBits KUint32 = 32" | "intBits KUint64 = 64"

fun intSigned :: "ikind \<Rightarrow> bool" where
  "intSigned KInt = True" | "intSigned KInt8 = True" | "intSigned KInt16 = True"
| "intSigned KInt32 = True" | "intSigned KInt64 = True" | "intSigned _ = False"

definition wrapInt :: "ikind \<Rightarrow> int \<Rightarrow> int" where
  "wrapInt k n =
     (if intSigned k then (n + 2 ^ (intBits k - 1)) mod 2 ^ intBits k - 2 ^ (intBits k - 1)
      else n mod 2 ^ intBits k)"

definition floatToInt :: "gofloat \<Rightarrow> int" where
  "floatToInt f =
     (case f of
        FFin r \<Rightarrow>
          (let t = (if 0 \<le> r then \<lfloor>r\<rfloor> else \<lceil>r\<rceil>)
           in if - (2 ^ 63) \<le> t \<and> t < 2 ^ 63 then t else - (2 ^ 63))
      | _ \<Rightarrow> - (2 ^ 63))"

text \<open>
  \<open>copyMap(src, dst)\<close> ranges over \<open>src\<close> and assigns into \<open>dst\<close>; \<open>copySlice\<close> fills a new
  slice.
\<close>

fun copyMap :: "(string \<times> val) list \<Rightarrow> (string \<times> val) list \<Rightarrow> (string \<times> val) list"
  and copySlice :: "val list \<Rightarrow> val list" where
  "copyMap [] dst = dst"
| "copyMap ((key, value) # rest) dst =
     copyMap rest
       (AList.update key
          (case value of
             VMap v \<Rightarrow> VMap (copyMap v [])
           | VSeq v \<Rightarrow> VSeq (copySlice v)
           | _ \<Rightarrow> value) dst)"
| "copySlice [] = []"
| "copySlice (item # rest) =
     (case item of
        VMap v \<Rightarrow> VMap (copyMap v [])
      | VSeq v \<Rightarrow> VSeq (copySlice v)
      | _ \<Rightarrow> item) # copySlice rest"

text \<open>
  \<open>setValueAtPath\<close> returns the contents of \<open>data\<close> after the call together with the error
  (\<open>None\<close> for \<open>nil\<close>). \<open>setLoop\<close> is the navigation loop followed by the final assignment,
  on the keys still to go: with no key at all, \<open>keys[len(keys)-1]\<close> panics; with one key left
  the loop is over and the key is assigned; otherwise the loop body runs on the first key.
  A nested map is mutated in place in Go, so the parent holds the new contents under the
  same key.
\<close>

fun setLoop :: "(string \<times> val) list \<Rightarrow> string list \<Rightarrow> val \<Rightarrow> (string \<times> val) list \<times> error option" where
  "setLoop current [] value = (current, Some RuntimePanic)"
| "setLoop current [finalKey] value = (AList.update finalKey value current, None)"
| "setLoop current (key # rest) value =
     (case map_of current key of
        Some next \<Rightarrow>
          (case next of
             VMap nextMap \<Rightarrow>
               (let (m, err) = setLoop nextMap rest value
                in (AList.update key (VMap m) current, err))
           | _ \<Rightarrow> (current, Some (NotTraversable key)))
      | None \<Rightarrow>
          (let (newMap, err) = setLoop [] rest value
           in (AList.update key (VMap newMap) current, err)))"

definition setValueAtPath :: "(string \<times> val) list \<Rightarrow> string \<Rightarrow> val \<Rightarrow> (string \<times> val) list \<times> error option" where
  "setValueAtPath data path value =
     (if path = [] then (data, Some EmptyPath) else setLoop data (splitPath path) value)"

text \<open>The \<open>switch valueType\<close> of \<open>modifyValueAtPath\<close>, which computes \<open>newValue\<close>.\<close>

fun newValueFor :: "ValueType \<Rightarrow> val \<Rightarrow> error + val" where
  "newValueFor ValueTypeString currentValue =
     (case currentValue of
        VStr strVal \<Rightarrow> Inr (VStr (''helmhound-test-'' @ strVal))
      | _ \<Rightarrow> Inl (ExpectedValue ValueTypeString))"
| "newValueFor ValueTypeInt currentValue =
     (case currentValue of
        VInt k v \<Rightarrow> Inr (VInt k (wrapInt k (v + 1)))
      | VFloat k v \<Rightarrow> Inr (VInt KInt (wrapInt KInt (floatToInt v + 1)))
      | _ \<Rightarrow> Inl (ExpectedValue ValueTypeInt))"
| "newValueFor ValueTypeBool currentValue =
     (case currentValue of
        VBool boolVal \<Rightarrow> Inr (VBool (\<not> boolVal))
      | _ \<Rightarrow> Inl (ExpectedValue ValueTypeBool))"
| "newValueFor ValueTypeSlice currentValue =
     (case currentValue of
        VSeq sliceVal \<Rightarrow> Inr (VSeq (sliceVal @ [VStr ''helmhound-test-element'']))
      | _ \<Rightarrow> Inl (ExpectedValue ValueTypeSlice))"
| "newValueFor ValueTypeMap currentValue =
     (case currentValue of
        VMap mapVal \<Rightarrow>
          Inr (VMap (AList.update ''helmhound-test-key'' (VStr ''helmhound-test-value'')
                       (copyMap mapVal [])))
      | _ \<Rightarrow> Inl (ExpectedValue ValueTypeMap))"
| "newValueFor ValueTypeUnknown currentValue = Inl (UnsupportedType ValueTypeUnknown)"

definition modifyValueAtPath :: "(string \<times> val) list \<Rightarrow> string \<Rightarrow> ValueType \<Rightarrow> error + (string \<times> val) list" where
  "modifyValueAtPath values path valueType =
     (let modifiedValues = copyMap values []
      in case getValueAtPath (VMap modifiedValues) path of
           Inl err \<Rightarrow> Inl err
         | Inr currentValue \<Rightarrow>
             (case newValueFor valueType currentValue of
                Inl err \<Rightarrow> Inl err
              | Inr newValue \<Rightarrow>
                  (case setValueAtPath modifiedValues path newValue of
                     (m, Some err) \<Rightarrow> Inl err
                   | (m, None) \<Rightarrow> Inr m)))"

section \<open>pkg/helmwrap/client.go on a store of map objects\<close>

text \<open>
  Whether \<open>modifyValueAtPath\<close> touches the caller's maps depends on which map objects it
  writes, so the same functions are modelled once more over an explicit store. A value of
  type \<open>map[string]interface{}\<close> is a reference \<open>SRef a\<close> to the map object at address \<open>a\<close>;
  \<open>objs h a\<close> is the contents of that object and \<open>free h\<close> the next address to allocate.
  \<open>makeMap\<close> is \<open>make(map[string]interface{})\<close> and \<open>assign a key value\<close> is \<open>m[key] = value\<close>
  on the object at \<open>a\<close>. Slices are kept as values: none of these functions assigns to an
  element of a slice that existed before (\<open>copySlice\<close> and the Slice case fill a new one).

  \<open>copyMap\<close> recurses through the objects of the store, so it carries fuel, spent at every
  call and at every round of a loop; \<open>None\<close> is fuel running out. The \<open>range\<close> loop over
  \<open>src\<close> reads the entries of \<open>src\<close> when it starts; \<open>src\<close> is not written while it runs.
\<close>

type_synonym addr = nat

datatype sval =
    SNil
  | SStr string
  | SInt ikind int
  | SFloat fkind gofloat
  | SBool bool
  | SSeq "sval list"
  | SRef addr

record store =
  objs :: "addr \<Rightarrow> (string \<times> sval) list"
  free :: addr

definition makeMap :: "store \<Rightarrow> addr \<times> store" where
  "makeMap h = (free h, h\<lparr>objs := (objs h)(free h := []), free := Suc (free h)\<rparr>)"

definition assign :: "addr \<Rightarrow> string \<Rightarrow> sval \<Rightarrow> store \<Rightarrow> store" where
  "assign a key value h = h\<lparr>objs := (objs h)(a := AList.update key value (objs h a))\<rparr>"

fun copyMapS :: "nat \<Rightarrow> addr \<Rightarrow> addr \<Rightarrow> store \<Rightarrow> store option"
  and copyEntriesS :: "nat \<Rightarrow> (string \<times> sval) list \<Rightarrow> addr \<Rightarrow> store \<Rightarrow> store option"
  and copySliceS :: "nat \<Rightarrow> sval list \<Rightarrow> store \<Rightarrow> (sval list \<times> store) option" where
  "copyMapS 0 src dst h = None"
| "copyMapS (Suc n) src dst h = copyEntriesS n (objs h src) dst h"
| "copyEntriesS 0 entries dst h = None"
| "copyEntriesS (Suc n) [] dst h = Some h"
| "copyEntriesS (Suc n) ((key, value) # rest) dst h =
     (case value of
        SRef v \<Rightarrow>
          (let (nested, h1) = makeMap h
           in case copyMapS n v nested h1 of
                None \<Rightarrow> None
              | Some h2 \<Rightarrow> copyEntriesS n rest dst (assign dst key (SRef nested) h2))
      | SSeq v \<Rightarrow>
          (case copySliceS n v h of
             None \<Rightarrow> None
           | Some (s, h1) \<Rightarrow> copyEntriesS n rest dst (assign dst key (SSeq s) h1))
      | _ \<Rightarrow> copyEntriesS n rest dst (assign dst key value h))"
| "copySliceS 0 src h = None"
| "copySliceS (Suc n) [] h = Some ([], h)"
| "copySliceS (Suc n) (item # rest) h =
     (case item of
        SRef v \<Rightarrow>
          (let (nested, h1) = makeMap h
           in case copyMapS n v nested h1 of
                None \<Rightarrow> None
              | Some h2 \<Rightarrow>
                  (case copySliceS n rest h2 of
                     None \<Rightarrow> None
                   | Some (dst, h3) \<Rightarrow> Some (SRef nested # dst, h3)))
      | SSeq v \<Rightarrow>
          (case copySliceS n v h of
             None \<Rightarrow> None
           | Some (s, h1) \<Rightarrow>
               (case copySliceS n rest h1 of
                  None \<Rightarrow> None
                | Some (dst, h2) \<Rightarrow> Some (SSeq s # dst, h2)))
      | _ \<Rightarrow>
          (case copySliceS n rest h of
             None \<Rightarrow> None
           | Some (dst, h1) \<Rightarrow> Some (item # dst, h1)))"

text \<open>\<open>getValueAtPath\<close> and \<open>setValueAtPath\<close>: the loops of the source, reading and writing the store.\<close>

fun getLoopS :: "store \<Rightarrow> string list \<Rightarrow> sval \<Rightarrow> error + sval" where
  "getLoopS h [] current = Inr current"
| "getLoopS h (key # keys) current =
     (case current of
        SRef v \<Rightarrow>
          (case map_of (objs h v) key of
             Some val \<Rightarrow> getLoopS h keys val
           | None \<Rightarrow> Inl (PathNotFound key))
      | _ \<Rightarrow> Inl (NotTraversable key))"

definition getValueAtPathS :: "store \<Rightarrow> sval \<Rightarrow> string \<Rightarrow> error + sval" where
  "getValueAtPathS h data path =
     (if path = [] then Inr data else getLoopS h (splitPath path) data)"

fun setLoopS :: "addr \<Rightarrow> string list \<Rightarrow> sval \<Rightarrow> store \<Rightarrow> store \<times> error option" where
  "setLoopS current [] value h = (h, Some RuntimePanic)"
| "setLoopS current [finalKey] value h = (assign current finalKey value h, None)"
| "setLoopS current (key # rest) value h =
     (case map_of (objs h current) key of
        Some next \<Rightarrow>
          (case next of
             SRef nextMap \<Rightarrow> setLoopS nextMap rest value h
           | _ \<Rightarrow> (h, Some (NotTraversable key)))
      | None \<Rightarrow>
          (let (newMap, h1) = makeMap h
           in setLoopS newMap rest value (assign current key (SRef newMap) h1)))"

definition setValueAtPathS :: "addr \<Rightarrow> string \<Rightarrow> sval \<Rightarrow> store \<Rightarrow> store \<times> error option" where
  "setValueAtPathS data path value h =
     (if path = [] then (h, Some EmptyPath) else setLoopS data (splitPath path) value h)"

text \<open>The \<open>switch valueType\<close>; the Map case allocates \<open>modifiedMap\<close> and copies into it.\<close>

fun newValueForS :: "nat \<Rightarrow> ValueType \<Rightarrow> sval \<Rightarrow> store \<Rightarrow> ((error + sval) \<times> store) option" where
  "newValueForS fuel ValueTypeString currentValue h =
     (case currentValue of
        SStr strVal \<Rightarrow> Some (Inr (SStr (''helmhound-test-'' @ strVal)), h)
      | _ \<Rightarrow> Some (Inl (ExpectedValue ValueTypeString), h))"
| "newValueForS fuel ValueTypeInt currentValue h =
     (case currentValue of
        SInt k v \<Rightarrow> Some (Inr (SInt k (wrapInt k (v + 1))), h)
      | SFloat k v \<Rightarrow> Some (Inr (SInt KInt (wrapInt KInt (floatToInt v + 1))), h)
      | _ \<Rightarrow> Some (Inl (ExpectedValue ValueTypeInt), h))"
| "newValueForS fuel ValueTypeBool currentValue h =
     (case currentValue of
        SBool boolVal \<Rightarrow> Some (Inr (SBool (\<not> boolVal)), h)
      | _ \<Rightarrow> Some (Inl (ExpectedValue ValueTypeBool), h))"
| "newValueForS fuel ValueTypeSlice currentValue h =
     (case currentValue of
        SSeq sliceVal \<Rightarrow> Some (Inr (SSeq (sliceVal @ [SStr ''helmhound-test-element''])), h)
      | _ \<Rightarrow> Some (Inl (ExpectedValue ValueTypeSlice), h))"
| "newValueForS fuel ValueTypeMap currentValue h =
     (case currentValue of
        SRef mapVal \<Rightarrow>
          (let (modifiedMap, h1) = makeMap h
           in case copyMapS fuel mapVal modifiedMap h1 of
                None \<Rightarrow> None
              | Some h2 \<Rightarrow>
                  Some (Inr (SRef modifiedMap),
                        assign modifiedMap ''helmhound-test-key'' (SStr ''helmhound-test-value'') h2))
      | _ \<Rightarrow> Some (Inl (ExpectedValue ValueTypeMap), h))"
| "newValueForS fuel ValueTypeUnknown currentValue h =
     Some (Inl (UnsupportedType ValueTypeUnknown), h)"

text \<open>
  \<open>modifyValueAtPath\<close>: the result is the error or the address of \<open>modifiedValues\<close>, with the
  store after the call.
\<close>

definition modifyValueAtPathS :: "nat \<Rightarrow> addr \<Rightarrow> string \<Rightarrow> ValueType \<Rightarrow> store \<Rightarrow> ((error + addr) \<times> store) option" where
  "modifyValueAtPathS fuel values path valueType h =
     (let (modifiedValues, h1) = makeMap h
      in case copyMapS fuel values modifiedValues h1 of
           None \<Rightarrow> None
         | Some h2 \<Rightarrow>
             (case getValueAtPathS h2 (SRef modifiedValues) path of
                Inl err \<Rightarrow> Some (Inl err, h2)
              | Inr currentValue \<Rightarrow>
                  (case newValueForS fuel valueType currentValue h2 of
                     None \<Rightarrow> None
                   | Some (Inl err, h3) \<Rightarrow> Some (Inl err, h3)
                   | Some (Inr newValue, h3) \<Rightarrow>
                       (case setValueAtPathS modifiedValues path newValue h3 of
                          (h4, Some err) \<Rightarrow> Some (Inl err, h4)
                        | (h4, None) \<Rightarrow> Some (Inr modifiedValues, h4)))))"

section \<open>Auxiliary notions used in the statements\<close>




text \<open>\<open>nanFree\<close> holds of a tree without a NaN.\<close>

fun nanFree :: "val \<Rightarrow> bool" where
  "nanFree (VFloat k f) = (f \<noteq> FNaN)"
| "nanFree (VSeq xs) = list_all nanFree xs"
| "nanFree (VMap kvs) = list_all (\<lambda>kv. nanFree (snd kv)) kvs"
| "nanFree _ = True"

text \<open>
  \<open>iterationOf m order\<close>: \<open>order\<close> is an order in which \<open>range\<close> may visit the keys of the Go
  map \<open>m\<close>, each key once. \<open>lookupRefs\<close> reads \<open>fileGroups[f]\<close>.
\<close>

definition iterationOf :: "('k \<times> 'v) list \<Rightarrow> 'k list \<Rightarrow> bool" where
  "iterationOf m order = (distinct order \<and> set order = fst ` set m)"

definition lookupRefs :: "fileGroups \<Rightarrow> string \<Rightarrow> ValueReference list" where
  "lookupRefs fg f = (case map_of fg f of None \<Rightarrow> [] | Some refs \<Rightarrow> refs)"

text \<open>
  \<open>navigable m ks\<close>: walking the keys \<open>ks\<close> from the mapping \<open>m\<close> never meets an existing
  value that is not a mapping (a missing key is fine: \<open>setValueAtPath\<close> creates it).
  \<open>hasSentinel v\<close>: \<open>v\<close> is a mapping that already holds the pair that \<open>modifyValueAtPath\<close>
  inserts. \<open>sameValue\<close>: equality of trees as Go values, where a mapping is compared as a
  finite map (for mappings with unique keys) and a sequence element by element.
\<close>

fun navigable :: "(string \<times> val) list \<Rightarrow> string list \<Rightarrow> bool" where
  "navigable m [] = True"
| "navigable m (k # ks) =
     (case map_of m k of
        None \<Rightarrow> True
      | Some (VMap m') \<Rightarrow> navigable m' ks
      | Some _ \<Rightarrow> False)"

definition hasSentinel :: "val \<Rightarrow> bool" where
  "hasSentinel v =
     (case v of
        VMap m \<Rightarrow> map_of m ''helmhound-test-key'' = Some (VStr ''helmhound-test-value'')
      | _ \<Rightarrow> False)"

fun sameValue :: "val \<Rightarrow> val \<Rightarrow> bool" where
  "sameValue (VSeq xs) (VSeq ys) = list_all2 sameValue xs ys"
| "sameValue (VMap a) (VMap b) =
     (length a = length b \<and>
      list_all (\<lambda>kv. case map_of b (fst kv) of Some w \<Rightarrow> sameValue (snd kv) w | None \<Rightarrow> False) a)"
| "sameValue a b = (a = b)"

text \<open>
  \<open>represents h v t\<close>: in the store \<open>h\<close> the value \<open>v\<close> denotes the tree \<open>t\<close>; a reference
  denotes a mapping when it points to an allocated object whose entries denote the entries
  of the mapping. \<open>freshClosed n h\<close>: an entry of an object allocated at or after \<open>n\<close> that is a
  map refers to an object allocated at or after \<open>n\<close>. \<open>extends n h h'\<close>: \<open>h'\<close> has all objects
  of \<open>h\<close> below \<open>n\<close> with their contents, and is \<open>freshClosed\<close>.
\<close>

fun represents :: "store \<Rightarrow> sval \<Rightarrow> val \<Rightarrow> bool" where
  "represents h SNil VNil = True"
| "represents h (SStr s) (VStr s') = (s = s')"
| "represents h (SInt k n) (VInt k' n') = (k = k' \<and> n = n')"
| "represents h (SFloat k f) (VFloat k' f') = (k = k' \<and> f = f')"
| "represents h (SBool b) (VBool b') = (b = b')"
| "represents h (SSeq xs) (VSeq ts) = list_all2 (\<lambda>x t. represents h x t) xs ts"
| "represents h (SRef a) (VMap kvs) =
     (a < free h \<and>
      list_all2 (\<lambda>e kv. fst e = fst kv \<and> represents h (snd e) (snd kv)) (objs h a) kvs)"
| "represents h _ _ = False"

definition freshClosed :: "addr \<Rightarrow> store \<Rightarrow> bool" where
  "freshClosed n h =
     (\<forall>a k b. n \<le> a \<and> a < free h \<and> (k, SRef b) \<in> set (objs h a) \<longrightarrow> n \<le> b \<and> b < free h)"

definition extends :: "addr \<Rightarrow> store \<Rightarrow> store \<Rightarrow> bool" where
  "extends n h h' =
     (free h \<le> free h' \<and> (\<forall>a<n. objs h' a = objs h a) \<and> freshClosed n h')"

section \<open>Paths emitted by extractPaths and read by getValueAtPath\<close>












section \<open>Rendering of sequence indices\<close>

text \<open>
  C8. The path of a sequence element should end in the decimal index in brackets. The code
  renders the index with \<open>string(rune(i+'0'))\<close>, one character: for the element at index 10
  of \<open>items\<close> it emits \<open>items[:]\<close> and not \<open>items[10]\<close>.
\<close>

theorem C8_index_ten_is_not_decimal:
  "''items[:]'' \<in> set (ExtractValuePaths [(''items'', VSeq (replicate 11 (VStr ''x'')))])
   \<and> ''items[10]'' \<notin> set (ExtractValuePaths [(''items'', VSeq (replicate 11 (VStr ''x'')))])"
  by (simp add: ExtractValuePaths_def numeral_eq_Suc encodeRune_def toRune_def char_of_def)

section \<open>The structural differ\<close>

declare compareValues.simps [simp del] findDifferencesWithValues.simps [simp del]

lemma floatEq_refl: "f \<noteq> FNaN \<Longrightarrow> floatEq f f"
  by (cases f) auto

lemma compareMapRight_same:
  "\<forall>kv\<in>set kvs. map_of l (fst kv) \<noteq> None \<Longrightarrow> compareMapRight p l kvs ds = ds"
  by (induction kvs arbitrary: ds) auto

lemma findMapRight_same:
  "\<forall>kv\<in>set kvs. map_of l (fst kv) \<noteq> None \<Longrightarrow> findMapRight p l kvs ds = ds"
  by (induction kvs arbitrary: ds) auto

lemma compareMapLeft_same:
  "\<forall>kv\<in>set kvs. map_of r (fst kv) = Some (snd kv) \<and> (\<forall>p ds. compareValues p (snd kv) (snd kv) ds = ds)
   \<Longrightarrow> compareMapLeft p kvs r ds = ds"
  by (induction kvs arbitrary: ds) (auto simp: Let_def)

lemma findMapLeft_same:
  "\<forall>kv\<in>set kvs. map_of r (fst kv) = Some (snd kv) \<and> (\<forall>p ds. findDifferencesWithValues p (snd kv) (snd kv) ds = ds)
   \<Longrightarrow> findMapLeft p kvs r ds = ds"
  by (induction kvs arbitrary: ds) (auto simp: Let_def)

lemma compareSliceLoop_same:
  "\<forall>x\<in>set xs. \<forall>p ds. compareValues p x x ds = ds \<Longrightarrow> compareSliceLoop p i xs xs ds = ds"
  by (induction xs arbitrary: i ds) auto

lemma findSliceLoop_same:
  "\<forall>x\<in>set xs. \<forall>p ds. findDifferencesWithValues p x x ds = ds \<Longrightarrow> findSliceLoop p i xs xs ds = ds"
  by (induction xs arbitrary: i ds) auto

lemma distinct_lookup:
  "distinct (map fst kvs) \<Longrightarrow> kv \<in> set kvs \<Longrightarrow> map_of kvs (fst kv) = Some (snd kv)"
  by (cases kv) simp

lemma compareValues_same: "wf t \<Longrightarrow> nanFree t \<Longrightarrow> compareValues p t t ds = ds"
proof (induction t arbitrary: p ds)
  case (VSeq xs)
  then have "\<forall>x\<in>set xs. \<forall>p ds. compareValues p x x ds = ds"
    by (simp add: list_all_iff)
  then show ?case by (simp add: compareValues.simps compareSliceLoop_same)
next
  case (VMap kvs)
  have "\<forall>kv\<in>set kvs. map_of kvs (fst kv) = Some (snd kv) \<and> (\<forall>p ds. compareValues p (snd kv) (snd kv) ds = ds)"
  proof
    fix kv assume kv: "kv \<in> set kvs"
    obtain k v where [simp]: "kv = (k, v)" by (cases kv)
    have "wf v" "nanFree v" using VMap.prems kv by (auto simp: list_all_iff)
    then have "\<forall>p ds. compareValues p v v ds = ds"
      using VMap.IH[of kv v] kv by simp
    then show "map_of kvs (fst kv) = Some (snd kv) \<and> (\<forall>p ds. compareValues p (snd kv) (snd kv) ds = ds)"
      using distinct_lookup[of kvs kv] VMap.prems(1) kv by simp
  qed
  then show ?case
    by (simp add: compareValues.simps compareMapLeft_same compareMapRight_same)
qed (simp_all add: compareValues.simps floatEq_refl)

lemma findDifferencesWithValues_same: "wf t \<Longrightarrow> nanFree t \<Longrightarrow> findDifferencesWithValues p t t ds = ds"
proof (induction t arbitrary: p ds)
  case (VSeq xs)
  then have "\<forall>x\<in>set xs. \<forall>p ds. findDifferencesWithValues p x x ds = ds"
    by (simp add: list_all_iff)
  then show ?case by (simp add: findDifferencesWithValues.simps findSliceLoop_same)
next
  case (VMap kvs)
  have "\<forall>kv\<in>set kvs. map_of kvs (fst kv) = Some (snd kv) \<and> (\<forall>p ds. findDifferencesWithValues p (snd kv) (snd kv) ds = ds)"
  proof
    fix kv assume kv: "kv \<in> set kvs"
    obtain k v where [simp]: "kv = (k, v)" by (cases kv)
    have "wf v" "nanFree v" using VMap.prems kv by (auto simp: list_all_iff)
    then have "\<forall>p ds. findDifferencesWithValues p v v ds = ds"
      using VMap.IH[of kv v] kv by simp
    then show "map_of kvs (fst kv) = Some (snd kv) \<and> (\<forall>p ds. findDifferencesWithValues p (snd kv) (snd kv) ds = ds)"
      using distinct_lookup[of kvs kv] VMap.prems(1) kv by simp
  qed
  then show ?case
    by (simp add: findDifferencesWithValues.simps findMapLeft_same findMapRight_same)
qed (simp_all add: findDifferencesWithValues.simps floatEq_refl)

text \<open>
  C2 (as amended). For a mapping \<open>t\<close> with unique keys and without a NaN, both differs
  find nothing between \<open>t\<close> and itself.
\<close>

theorem C2_compare_self_empty:
  assumes "wf (VMap t)" "nanFree (VMap t)"
  shows "CompareYAML t t = [] \<and> FindDifferencesWithValues t t = []"
  using assms compareValues_same[of "VMap t"] findDifferencesWithValues_same[of "VMap t"]
  by (simp add: CompareYAML_def FindDifferencesWithValues_def)

text \<open>The hypotheses of C2 hold of \<open>{a: 1, items: [x, 2.5]}\<close>.\<close>

theorem C2_compare_self_witness:
  "wf (VMap [(''a'', VInt KInt 1), (''items'', VSeq [VStr ''x'', VFloat KFloat64 (FFin 2.5)])])
   \<and> nanFree (VMap [(''a'', VInt KInt 1), (''items'', VSeq [VStr ''x'', VFloat KFloat64 (FFin 2.5)])])
   \<and> CompareYAML [(''a'', VInt KInt 1), (''items'', VSeq [VStr ''x'', VFloat KFloat64 (FFin 2.5)])]
         [(''a'', VInt KInt 1), (''items'', VSeq [VStr ''x'', VFloat KFloat64 (FFin 2.5)])] = []
   \<and> FindDifferencesWithValues
         [(''a'', VInt KInt 1), (''items'', VSeq [VStr ''x'', VFloat KFloat64 (FFin 2.5)])]
         [(''a'', VInt KInt 1), (''items'', VSeq [VStr ''x'', VFloat KFloat64 (FFin 2.5)])] = []"
proof -
  let ?t = "[(''a'', VInt KInt 1), (''items'', VSeq [VStr ''x'', VFloat KFloat64 (FFin 2.5)])]"
  have h1: "wf (VMap ?t)" by simp
  have h2: "nanFree (VMap ?t)" by simp
  show ?thesis using h1 h2 C2_compare_self_empty[OF h1 h2] by simp
qed

text \<open>
  C2 as stated fails: a NaN is not equal to itself under \<open>reflect.DeepEqual\<close>, so both
  differs report the path of a NaN when \<open>{x: NaN}\<close> is compared with itself.
\<close>

theorem C2_nan_counterexample:
  "CompareYAML [(''x'', VFloat KFloat64 FNaN)] [(''x'', VFloat KFloat64 FNaN)] = [''x'']
   \<and> FindDifferencesWithValues [(''x'', VFloat KFloat64 FNaN)] [(''x'', VFloat KFloat64 FNaN)]
      = [(''x'', \<lparr>Left = VFloat KFloat64 FNaN, Right = VFloat KFloat64 FNaN, Type = DiffTypeModified\<rparr>)]"
  by (simp add: CompareYAML_def FindDifferencesWithValues_def compareValues.simps findDifferencesWithValues.simps buildPath_def)




lemma keys_update: "fst ` set (AList.update k v m) = insert k (fst ` set m)"
  by (simp add: dom_update)

lemma right_agree:
  "set ds = fst ` set m \<Longrightarrow>
   set (compareMapRight p l kvs ds) = fst ` set (findMapRight p l kvs m)"
proof (induction kvs arbitrary: ds m)
  case Nil
  then show ?case by simp
next
  case (Cons kv kvs)
  obtain k v where kv: "kv = (k, v)" by (cases kv)
  show ?case
  proof (cases "map_of l k = None")
    case True
    have "set (ds @ [buildPath p k])
          = fst ` set (AList.update (buildPath p k) \<lparr>Left = VNil, Right = v, Type = DiffTypeAdded\<rparr> m)"
      using Cons.prems by (simp add: keys_update)
    from Cons.IH[OF this] show ?thesis using True by (simp add: kv)
  next
    case False
    then obtain y where "map_of l k = Some y" by auto
    then show ?thesis using Cons.IH[OF Cons.prems] by (simp add: kv)
  qed
qed

lemma differs_agree:
  "\<And>m. set ds = fst ` set m \<Longrightarrow>
     set (compareValues p l r ds) = fst ` set (findDifferencesWithValues p l r m)"
  "\<And>m. set ds = fst ` set m \<Longrightarrow>
     set (compareMapLeft p kl kr ds) = fst ` set (findMapLeft p kl kr m)"
  "\<And>m. set ds = fst ` set m \<Longrightarrow>
     set (compareSliceLoop p i xl xr ds) = fst ` set (findSliceLoop p i xl xr m)"
proof (induction p l r ds and p kl kr ds and p i xl xr ds
    rule: compareValues_compareMapLeft_compareSliceLoop.induct)
  case (1 path left right ds)
  show ?case
  proof (cases "left = VNil \<or> right = VNil \<or> typeOf left \<noteq> typeOf right")
    case True
    then show ?thesis using "1.prems"
      by (auto simp: compareValues.simps findDifferencesWithValues.simps keys_update
          simp del: image_insert)
  next
    case False
    then have nn: "left \<noteq> VNil" "right \<noteq> VNil" "typeOf left = typeOf right" by auto
    show ?thesis
    proof (cases left)
      case (VMap lv)
      then obtain rv where rv: "right = VMap rv" using nn by (cases right) auto
      have "set (compareMapLeft path lv rv ds) = fst ` set (findMapLeft path lv rv m)"
        using "1.IH"(2)[OF _ _ _ VMap rv] nn "1.prems" by auto
      then show ?thesis
        by (simp add: compareValues.simps findDifferencesWithValues.simps VMap rv right_agree)
    next
      case (VSeq lv)
      then obtain rv where rv: "right = VSeq rv" using nn by (cases right) auto
      have "set (compareSliceLoop path 0 lv rv ds) = fst ` set (findSliceLoop path 0 lv rv m)"
        using "1.IH"(1)[OF _ _ _ VSeq rv] nn "1.prems" by auto
      then show ?thesis
        by (simp add: compareValues.simps findDifferencesWithValues.simps VSeq rv)
    qed (use nn "1.prems" in \<open>auto simp: compareValues.simps findDifferencesWithValues.simps keys_update
          simp del: image_insert\<close>)
  qed
next
  case (3 basePath key leftValue rest right ds)
  show ?case
  proof (cases "map_of right key")
    case None
    then show ?thesis using "3.IH"(2)[OF refl, of "AList.update (buildPath basePath key) \<lparr>Left = leftValue, Right = VNil, Type = DiffTypeRemoved\<rparr> m"] "3.prems"
      by (simp add: Let_def keys_update)
  next
    case (Some rv)
    have "set (compareValues (buildPath basePath key) leftValue rv ds)
          = fst ` set (findDifferencesWithValues (buildPath basePath key) leftValue rv m)"
      using "3.IH"(1)[OF refl Some] "3.prems" by simp
    then show ?thesis using "3.IH"(2)[OF refl] Some
      by (simp add: Let_def)
  qed
qed (auto simp: keys_update simp del: image_insert)

text \<open>
  C10. For every pair of mappings, the set of paths that \<open>CompareYAML\<close> returns is the set
  of keys of the map that \<open>FindDifferencesWithValues\<close> returns.
\<close>

theorem C10_differs_agree_on_paths:
  "set (CompareYAML left right) = fst ` set (FindDifferencesWithValues left right)"
  using differs_agree(1)[of "[]" "[]"] by (simp add: CompareYAML_def FindDifferencesWithValues_def)

section \<open>FormatValueReferences\<close>

lemma groupLoop_lookup:
  "lookupRefs (groupLoop refs fg) f = lookupRefs fg f @ filter (\<lambda>r. File r = f) refs"
  by (induction refs arbitrary: fg) (auto simp: lookupRefs_def update_conv' split: option.splits)

lemma groupLoop_keys:
  "fst ` set (groupLoop refs fg) = fst ` set fg \<union> File ` set refs"
  by (induction refs arbitrary: fg) (auto simp: dom_update simp del: image_insert)

lemma writeRefs_eq: "writeRefs refs result = result @ concat (map refLine refs)"
  by (induction refs arbitrary: result) auto

lemma writeGroups_eq:
  "set order \<subseteq> fst ` set fg \<Longrightarrow>
   writeGroups order fg result
     = result @ concat (map (\<lambda>f. headerLine f @ concat (map refLine (lookupRefs fg f))) order)"
proof (induction order arbitrary: result)
  case Nil
  then show ?case by simp
next
  case (Cons f order)
  then obtain refs where "map_of fg f = Some refs"
    by (cases "map_of fg f") (auto simp: map_of_eq_None_iff)
  then show ?case using Cons by (simp add: writeRefs_eq lookupRefs_def)
qed

text \<open>
  C9 (as amended). For a non-empty list of references and any order in which the runtime
  visits the keys of \<open>fileGroups\<close>, the output has one group per distinct file, in that
  order of visit; a group is the header line of the file followed by one line per reference
  of the file, in input order.
\<close>

theorem C9_groups_in_iteration_order:
  assumes "references \<noteq> []" "iterationOf (groupLoop references []) order"
  shows "distinct order \<and> set order = File ` set references
         \<and> FormatValueReferences order references
           = concat (map (\<lambda>f. headerLine f
                               @ concat (map refLine (filter (\<lambda>r. File r = f) references))) order)"
proof -
  have keys: "fst ` set (groupLoop references []) = File ` set references"
    by (simp add: groupLoop_keys)
  have "lookupRefs (groupLoop references []) f = filter (\<lambda>r. File r = f) references" for f
  proof -
    have "lookupRefs [] f = []" by (simp add: lookupRefs_def)
    then show ?thesis by (simp add: groupLoop_lookup)
  qed
  then show ?thesis
    using assms keys writeGroups_eq[of order "groupLoop references []" "[]"]
    by (simp add: iterationOf_def FormatValueReferences_def)
qed

text \<open>The hypotheses of C9 hold of two references in two files, visited in input order.\<close>

theorem C9_groups_witness:
  "[\<lparr>File = ''deployment.yaml'', Line = 10, Content = ''.Values.image'', FullLine = [], ManifestPath = []\<rparr>, \<lparr>File = ''pod.yaml'', Line = 5, Content = ''.Values.image'', FullLine = [], ManifestPath = []\<rparr>] \<noteq> []
   \<and> iterationOf (groupLoop [\<lparr>File = ''deployment.yaml'', Line = 10, Content = ''.Values.image'', FullLine = [], ManifestPath = []\<rparr>, \<lparr>File = ''pod.yaml'', Line = 5, Content = ''.Values.image'', FullLine = [], ManifestPath = []\<rparr>] []) [''deployment.yaml'', ''pod.yaml'']
   \<and> FormatValueReferences [''deployment.yaml'', ''pod.yaml''] [\<lparr>File = ''deployment.yaml'', Line = 10, Content = ''.Values.image'', FullLine = [], ManifestPath = []\<rparr>, \<lparr>File = ''pod.yaml'', Line = 5, Content = ''.Values.image'', FullLine = [], ManifestPath = []\<rparr>]
       = concat (map (\<lambda>f. headerLine f @ concat (map refLine (filter (\<lambda>r. File r = f) [\<lparr>File = ''deployment.yaml'', Line = 10, Content = ''.Values.image'', FullLine = [], ManifestPath = []\<rparr>, \<lparr>File = ''pod.yaml'', Line = 5, Content = ''.Values.image'', FullLine = [], ManifestPath = []\<rparr>])))
                  [''deployment.yaml'', ''pod.yaml''])"
proof -
  let ?refs = "[\<lparr>File = ''deployment.yaml'', Line = 10, Content = ''.Values.image'', FullLine = [], ManifestPath = []\<rparr>, \<lparr>File = ''pod.yaml'', Line = 5, Content = ''.Values.image'', FullLine = [], ManifestPath = []\<rparr>]"
  have h1: "?refs \<noteq> []" by simp
  have h2: "iterationOf (groupLoop ?refs []) [''deployment.yaml'', ''pod.yaml'']"
    by (simp add: iterationOf_def insert_commute)
  show ?thesis using h1 h2 C9_groups_in_iteration_order[OF h1 h2] by simp
qed

text \<open>
  C9 as stated fails: \<open>deployment.yaml\<close> occurs first in the input, and the runtime may visit
  \<open>pod.yaml\<close> first; the output then starts with the group of \<open>pod.yaml\<close>.
\<close>

lemma natDigits_examples: "natDigits 10 = ''10''" "natDigits 5 = ''5''"
  by (simp_all add: natDigits.simps char_of_def bit_Suc_0_iff)

theorem C9_order_counterexample:
  "iterationOf (groupLoop [\<lparr>File = ''deployment.yaml'', Line = 10, Content = ''.Values.image'', FullLine = [], ManifestPath = []\<rparr>, \<lparr>File = ''pod.yaml'', Line = 5, Content = ''.Values.image'', FullLine = [], ManifestPath = []\<rparr>] []) [''pod.yaml'', ''deployment.yaml'']
   \<and> FormatValueReferences [''pod.yaml'', ''deployment.yaml''] [\<lparr>File = ''deployment.yaml'', Line = 10, Content = ''.Values.image'', FullLine = [], ManifestPath = []\<rparr>, \<lparr>File = ''pod.yaml'', Line = 5, Content = ''.Values.image'', FullLine = [], ManifestPath = []\<rparr>]
       = ''=== pod.yaml ==='' @ [CHR 0x0A] @ ''5L: .Values.image'' @ [CHR 0x0A]
         @ ''=== deployment.yaml ==='' @ [CHR 0x0A] @ ''10L: .Values.image'' @ [CHR 0x0A]"
  by (simp add: iterationOf_def FormatValueReferences_def headerLine_def refLine_def itoa_def
      natDigits_examples insert_commute)

section \<open>setValueAtPath and getValueAtPath\<close>

lemma setLoop_get:
  "setLoop c ks v = (m, None) \<Longrightarrow> getLoop ks (VMap m) = Inr v"
proof (induction c ks v arbitrary: m rule: setLoop.induct)
  case (1 current "value")
  then show ?case by simp
next
  case (2 current finalKey "value")
  then show ?case by (auto simp: update_conv')
next
  case (3 current key k' rest "value")
  show ?case
  proof (cases "map_of current key")
    case None
    obtain m' e where r: "setLoop [] (k' # rest) value = (m', e)" by (cases "setLoop [] (k' # rest) value")
    with "3.prems" None have e: "e = None" and m: "m = AList.update key (VMap m') current"
      by auto
    have "getLoop (k' # rest) (VMap m') = Inr value"
      using "3.IH"(1)[OF None] r e by simp
    then show ?thesis by (simp add: m update_conv')
  next
    case (Some nxt)
    show ?thesis
    proof (cases nxt)
      case (VMap nextMap)
      obtain m' e where r: "setLoop nextMap (k' # rest) value = (m', e)"
        by (cases "setLoop nextMap (k' # rest) value")
      with "3.prems" Some VMap have e: "e = None" and m: "m = AList.update key (VMap m') current"
        by auto
      have "getLoop (k' # rest) (VMap m') = Inr value"
        using "3.IH"(2)[OF Some VMap] r e by simp
      then show ?thesis by (simp add: m update_conv')
    qed (use "3.prems" Some in auto)
  qed
qed

text \<open>
  C6. When \<open>setValueAtPath\<close> succeeds on \<open>t\<close>, \<open>p\<close> and \<open>v\<close>, reading \<open>p\<close> in the resulting tree
  with \<open>getValueAtPath\<close> returns exactly \<open>v\<close>.
\<close>

theorem C6_get_after_set:
  assumes "setValueAtPath t p v = (t', None)"
  shows "getValueAtPath (VMap t') p = Inr v"
proof -
  have "p \<noteq> []" using assms by (auto simp: setValueAtPath_def)
  then show ?thesis using assms setLoop_get
    by (simp add: setValueAtPath_def getValueAtPath_def)
qed

text \<open>The hypothesis of C6 holds of \<open>config.database.host\<close> in a nested tree.\<close>

theorem C6_get_after_set_witness:
  "setValueAtPath [(''config'', VMap [(''database'', VMap [(''host'', VStr ''old_host'')])])]
       ''config.database.host'' (VStr ''new_host'')
     = ([(''config'', VMap [(''database'', VMap [(''host'', VStr ''new_host'')])])], None)
   \<and> getValueAtPath (VMap [(''config'', VMap [(''database'', VMap [(''host'', VStr ''new_host'')])])])
       ''config.database.host'' = Inr (VStr ''new_host'')"
proof -
  have h: "setValueAtPath [(''config'', VMap [(''database'', VMap [(''host'', VStr ''old_host'')])])]
       ''config.database.host'' (VStr ''new_host'')
     = ([(''config'', VMap [(''database'', VMap [(''host'', VStr ''new_host'')])])], None)"
    by (simp add: setValueAtPath_def splitPath_def)
  show ?thesis using h C6_get_after_set[OF h] by simp
qed

lemma setLoop_not_EmptyPath: "snd (setLoop c ks v) \<noteq> Some EmptyPath"
  by (induction c ks v rule: setLoop.induct)
     (auto split: option.splits val.splits prod.splits)

lemma setLoop_navigable:
  "ks \<noteq> [] \<Longrightarrow> navigable c (butlast ks) \<Longrightarrow> snd (setLoop c ks v) = None"
proof (induction c ks v rule: setLoop.induct)
  case (3 current key k' rest "value")
  then show ?case
    by (auto split: option.splits val.splits prod.splits)
qed auto

lemma setLoop_blocked:
  "ks \<noteq> [] \<Longrightarrow> \<not> navigable c (butlast ks) \<Longrightarrow> \<exists>k. setLoop c ks v = (c, Some (NotTraversable k))"
proof (induction c ks v rule: setLoop.induct)
  case (3 current key k' rest "value")
  show ?case
  proof (cases "map_of current key")
    case None
    then show ?thesis using "3.prems" by simp
  next
    case (Some nxt)
    show ?thesis
    proof (cases nxt)
      case (VMap nextMap)
      then have "\<not> navigable nextMap (butlast (k' # rest))"
        using "3.prems" Some by simp
      then obtain k where "setLoop nextMap (k' # rest) value = (nextMap, Some (NotTraversable k))"
        using "3.IH"(2)[OF Some VMap] by auto
      then show ?thesis using Some VMap
        by (simp add: update_triv)
    qed (use Some in auto)
  qed
qed auto

text \<open>
  C7 (as amended). \<open>setValueAtPath\<close> reports EmptyPath exactly when the path is empty. For a
  path with at least one non-empty segment: if no segment before the last names an existing
  value that is not a mapping, it succeeds (missing intermediate mappings are created, the
  final key is overwritten) and the value is read back at the path; otherwise it fails with
  NotTraversable and leaves the tree as it was.
\<close>

theorem C7_set_outcomes:
  "(snd (setValueAtPath t p v) = Some EmptyPath \<longleftrightarrow> p = []) \<and>
   (splitPath p \<noteq> [] \<longrightarrow>
      (if navigable t (butlast (splitPath p))
       then \<exists>t'. setValueAtPath t p v = (t', None) \<and> getValueAtPath (VMap t') p = Inr v
       else \<exists>k. setValueAtPath t p v = (t, Some (NotTraversable k))))"
proof -
  have a: "snd (setValueAtPath t p v) = Some EmptyPath \<longleftrightarrow> p = []"
    using setLoop_not_EmptyPath by (simp add: setValueAtPath_def)
  have b: "\<exists>t'. setValueAtPath t p v = (t', None) \<and> getValueAtPath (VMap t') p = Inr v"
    if ks: "splitPath p \<noteq> []" and nav: "navigable t (butlast (splitPath p))"
  proof -
    have p: "p \<noteq> []" using ks by (auto simp: splitPath_def)
    obtain t' e where r: "setLoop t (splitPath p) v = (t', e)" by (cases "setLoop t (splitPath p) v")
    then have "e = None" using setLoop_navigable[OF ks nav, of v] by simp
    then show ?thesis using r p setLoop_get[of t "splitPath p" v t']
      by (simp add: setValueAtPath_def getValueAtPath_def)
  qed
  have c: "\<exists>k. setValueAtPath t p v = (t, Some (NotTraversable k))"
    if ks: "splitPath p \<noteq> []" and nav: "\<not> navigable t (butlast (splitPath p))"
  proof -
    have p: "p \<noteq> []" using ks by (auto simp: splitPath_def)
    then show ?thesis using setLoop_blocked[OF ks nav, of v] by (simp add: setValueAtPath_def)
  qed
  show ?thesis using a b c by simp
qed

text \<open>The hypotheses of C7 hold of \<open>new.nested.key\<close> on the empty mapping.\<close>

theorem C7_set_outcomes_witness:
  "splitPath ''new.nested.key'' \<noteq> []
   \<and> navigable [] (butlast (splitPath ''new.nested.key''))
   \<and> (\<exists>t'. setValueAtPath [] ''new.nested.key'' (VStr ''value'') = (t', None)
          \<and> getValueAtPath (VMap t') ''new.nested.key'' = Inr (VStr ''value''))"
proof -
  have h1: "splitPath ''new.nested.key'' \<noteq> []" by (simp add: splitPath_def)
  have h2: "navigable [] (butlast (splitPath ''new.nested.key''))" by (simp add: splitPath_def)
  show ?thesis
    using h1 h2 C7_set_outcomes[of "[]" "''new.nested.key''" "VStr ''value''"] by simp
qed

text \<open>
  C7 as stated fails: on \<open>{a: 1}\<close> the non-empty path \<open>a.b\<close> makes \<open>setValueAtPath\<close> fail, with
  an error that is not EmptyPath.
\<close>

theorem C7_non_map_counterexample:
  "setValueAtPath [(''a'', VInt KInt 1)] ''a.b'' (VStr ''v'')
     = ([(''a'', VInt KInt 1)], Some (NotTraversable ''a''))"
  by (simp add: setValueAtPath_def splitPath_def)

section \<open>modifyValueAtPath\<close>

lemma update_new: "k \<notin> fst ` set dst \<Longrightarrow> AList.update k v dst = dst @ [(k, v)]"
  by (induction dst) auto

lemma copyMap_entries:
  "distinct (map fst kvs) \<Longrightarrow> fst ` set kvs \<inter> fst ` set dst = {} \<Longrightarrow>
   \<forall>k v. (k, v) \<in> set kvs \<longrightarrow> (case v of VMap m \<Rightarrow> VMap (copyMap m []) | VSeq xs \<Rightarrow> VSeq (copySlice xs) | _ \<Rightarrow> v) = v \<Longrightarrow>
   copyMap kvs dst = dst @ kvs"
proof (induction kvs arbitrary: dst)
  case Nil
  then show ?case by simp
next
  case (Cons kv kvs)
  obtain k v where kv: "kv = (k, v)" by (cases kv)
  have cv: "(case v of VMap m \<Rightarrow> VMap (copyMap m []) | VSeq xs \<Rightarrow> VSeq (copySlice xs) | _ \<Rightarrow> v) = v"
    using Cons.prems(3) kv by auto
  have new: "k \<notin> fst ` set dst" using Cons.prems(2) kv by auto
  have "copyMap (kv # kvs) dst = copyMap kvs (dst @ [(k, v)])"
    by (simp add: kv cv update_new[OF new])
  also have "\<dots> = (dst @ [(k, v)]) @ kvs"
    using Cons.prems kv by (intro Cons.IH) auto
  finally show ?case by (simp add: kv)
qed

lemma copySlice_items:
  "\<forall>x\<in>set xs. (case x of VMap m \<Rightarrow> VMap (copyMap m []) | VSeq ys \<Rightarrow> VSeq (copySlice ys) | _ \<Rightarrow> x) = x \<Longrightarrow>
   copySlice xs = xs"
  by (induction xs) auto

lemma copy_value_id:
  "wf v \<Longrightarrow> (case v of VMap m \<Rightarrow> VMap (copyMap m []) | VSeq xs \<Rightarrow> VSeq (copySlice xs) | _ \<Rightarrow> v) = v"
proof (induction v)
  case (VSeq xs)
  then have "copySlice xs = xs"
    by (intro copySlice_items) (auto simp: list_all_iff)
  then show ?case by simp
next
  case (VMap kvs)
  have "copyMap kvs [] = [] @ kvs"
  proof (rule copyMap_entries)
    show "distinct (map fst kvs)" using VMap.prems by simp
    show "fst ` set kvs \<inter> fst ` set [] = {}" by simp
    show "\<forall>k v. (k, v) \<in> set kvs \<longrightarrow> (case v of VMap m \<Rightarrow> VMap (copyMap m []) | VSeq xs \<Rightarrow> VSeq (copySlice xs) | _ \<Rightarrow> v) = v"
    proof (intro allI impI)
      fix k v assume kv: "(k, v) \<in> set kvs"
      then have "wf v" using VMap.prems by (auto simp: list_all_iff)
      then show "(case v of VMap m \<Rightarrow> VMap (copyMap m []) | VSeq xs \<Rightarrow> VSeq (copySlice xs) | _ \<Rightarrow> v) = v"
        using VMap.IH[of "(k, v)" v] kv by simp
    qed
  qed
  then show ?case by simp
qed simp_all

lemma copyMap_id: "wf (VMap t) \<Longrightarrow> copyMap t [] = t"
  using copy_value_id[of "VMap t"] by simp

lemma getLoop_map:
  "getLoop ks t = Inr v \<Longrightarrow> ks \<noteq> [] \<Longrightarrow> \<exists>c. t = VMap c \<and> navigable c (butlast ks)"
proof (induction ks arbitrary: t)
  case Nil
  then show ?case by simp
next
  case (Cons k ks)
  then obtain c w where t: "t = VMap c" and look: "map_of c k = Some w" and rest: "getLoop ks w = Inr v"
    by (auto split: val.splits option.splits)
  show ?case
  proof (cases "ks = []")
    case True
    then show ?thesis using t by simp
  next
    case False
    then obtain c' where "w = VMap c'" "navigable c' (butlast ks)"
      using Cons.IH[OF rest] by auto
    then show ?thesis using t look False by simp
  qed
qed

lemma getLoop_navigable:
  "getLoop ks (VMap c) = Inr v \<Longrightarrow> navigable c (butlast ks)"
  using getLoop_map[of ks "VMap c" v] by (cases "ks = []") auto

lemma getLoop_wf: "getLoop ks t = Inr v \<Longrightarrow> wf t \<Longrightarrow> wf v"
proof (induction ks arbitrary: t)
  case Nil
  then show ?case by simp
next
  case (Cons k ks)
  then obtain m w where t: "t = VMap m" and look: "map_of m k = Some w" and rest: "getLoop ks w = Inr v"
    by (auto split: val.splits option.splits)
  have "wf w" using Cons.prems(2) t map_of_SomeD[OF look] by (auto simp: list_all_iff)
  then show ?case using Cons.IH rest by blast
qed

lemma wrapInt_succ: "wrapInt k (v + 1) \<noteq> v"
proof
  assume eq: "wrapInt k (v + 1) = v"
  have big: "(2::int) ^ intBits k > 1" by (cases k) simp_all
  show False
  proof (cases "intSigned k")
    case True
    with eq have "(v + 1 + 2 ^ (intBits k - 1)) mod 2 ^ intBits k = v + 2 ^ (intBits k - 1)"
      by (simp add: wrapInt_def)
    then have "(v + 1 + 2 ^ (intBits k - 1)) mod 2 ^ intBits k = (v + 2 ^ (intBits k - 1)) mod 2 ^ intBits k"
      by (metis mod_mod_trivial)
    then have "(2::int) ^ intBits k dvd (v + 1 + 2 ^ (intBits k - 1)) - (v + 2 ^ (intBits k - 1))"
      by (simp only: mod_eq_dvd_iff)
    then have "(2::int) ^ intBits k dvd 1" by simp
    then show False using big by (simp add: zdvd1_eq)
  next
    case False
    with eq have "(v + 1) mod 2 ^ intBits k = v" by (simp add: wrapInt_def)
    then have "(v + 1) mod 2 ^ intBits k = v mod 2 ^ intBits k"
      by (metis mod_mod_trivial)
    then have "(2::int) ^ intBits k dvd (v + 1) - v"
      by (simp only: mod_eq_dvd_iff)
    then have "(2::int) ^ intBits k dvd 1" by simp
    then show False using big by (simp add: zdvd1_eq)
  qed
qed

lemma length_update:
  "length (AList.update k v al) = (if k \<in> fst ` set al then length al else Suc (length al))"
  by (induction al) auto

lemma sentinel_changes_map:
  assumes "map_of m k \<noteq> Some (VStr s)"
  shows "\<not> sameValue (VMap (AList.update k (VStr s) m)) (VMap m)"
proof (cases "k \<in> fst ` set m")
  case False
  then show ?thesis by (simp add: length_update)
next
  case True
  have "map_of (AList.update k (VStr s) m) k = Some (VStr s)" by (simp add: update_conv')
  then have mem: "(k, VStr s) \<in> set (AList.update k (VStr s) m)" by (rule map_of_SomeD)
  obtain w where w: "map_of m k = Some w" using True by (cases "map_of m k") (auto simp: map_of_eq_None_iff)
  then have "w \<noteq> VStr s" using assms by simp
  then have "\<not> (case map_of m (fst (k, VStr s)) of Some w \<Rightarrow> sameValue (snd (k, VStr s)) w | None \<Rightarrow> False)"
    using w by auto
  then have "\<exists>kv\<in>set (AList.update k (VStr s) m).
      \<not> (case map_of m (fst kv) of Some w \<Rightarrow> sameValue (snd kv) w | None \<Rightarrow> False)"
    using mem by blast
  then show ?thesis by (simp add: list_all_iff)
qed

lemma newValueFor_differs:
  assumes "wf v" "determineValueType v \<noteq> ValueTypeUnknown" "\<not> hasSentinel v"
  shows "\<exists>nv. newValueFor (determineValueType v) v = Inr nv \<and> \<not> sameValue nv v"
proof (cases v)
  case (VInt k n)
  then show ?thesis using wrapInt_succ by simp
next
  case (VSeq xs)
  then show ?thesis by (auto dest: list_all2_lengthD)
next
  case (VMap m)
  then show ?thesis using assms sentinel_changes_map[of m "''helmhound-test-key''" "''helmhound-test-value''"]
    by (simp add: copyMap_id hasSentinel_def)
qed (use assms in auto)

text \<open>
  C4 (as amended). Let \<open>t\<close> have unique keys, let \<open>p\<close> have at least one non-empty segment,
  let \<open>getValueAtPath\<close> find \<open>v\<close> at \<open>p\<close>, let the type classified for \<open>v\<close> be one of String,
  Int, Bool, Slice, Map, and let \<open>v\<close> not be a mapping that already holds the inserted pair.
  Then \<open>modifyValueAtPath\<close> succeeds, and the value at \<open>p\<close> in the returned tree is not the
  same value as \<open>v\<close>.
\<close>

theorem C4_mutate_changes_value:
  assumes "wf (VMap t)" "getValueAtPath (VMap t) p = Inr v" "splitPath p \<noteq> []"
    and "determineValueType v \<noteq> ValueTypeUnknown" "\<not> hasSentinel v"
  shows "\<exists>t' v'. modifyValueAtPath t p (determineValueType v) = Inr t'
           \<and> getValueAtPath (VMap t') p = Inr v' \<and> \<not> sameValue v' v"
proof -
  have p: "p \<noteq> []" using assms(3) by (auto simp: splitPath_def)
  then have g: "getLoop (splitPath p) (VMap t) = Inr v"
    using assms(2) by (simp add: getValueAtPath_def)
  have "wf v" using getLoop_wf[OF g assms(1)] .
  then obtain nv where nv: "newValueFor (determineValueType v) v = Inr nv" "\<not> sameValue nv v"
    using newValueFor_differs assms(4,5) by blast
  obtain t' e where r: "setLoop t (splitPath p) nv = (t', e)" by (cases "setLoop t (splitPath p) nv")
  have "e = None"
    using setLoop_navigable[OF assms(3) getLoop_navigable[OF g], of nv] r by simp
  then have s: "setValueAtPath t p nv = (t', None)" using r p by (simp add: setValueAtPath_def)
  have "modifyValueAtPath t p (determineValueType v) = Inr t'"
    using assms(1,2) nv(1) s by (simp add: modifyValueAtPath_def copyMap_id)
  moreover have "getValueAtPath (VMap t') p = Inr nv"
    using setLoop_get r \<open>e = None\<close> p by (simp add: getValueAtPath_def)
  ultimately show ?thesis using nv(2) by blast
qed

text \<open>The hypotheses of C4 hold of \<open>server.port\<close> in \<open>{server: {port: 8080}}\<close>.\<close>

theorem C4_mutate_witness:
  "wf (VMap [(''server'', VMap [(''port'', VInt KInt 8080)])])
   \<and> getValueAtPath (VMap [(''server'', VMap [(''port'', VInt KInt 8080)])]) ''server.port''
       = Inr (VInt KInt 8080)
   \<and> splitPath ''server.port'' \<noteq> []
   \<and> determineValueType (VInt KInt 8080) \<noteq> ValueTypeUnknown
   \<and> \<not> hasSentinel (VInt KInt 8080)
   \<and> (\<exists>t' v'. modifyValueAtPath [(''server'', VMap [(''port'', VInt KInt 8080)])] ''server.port''
                   (determineValueType (VInt KInt 8080)) = Inr t'
          \<and> getValueAtPath (VMap t') ''server.port'' = Inr v'
          \<and> \<not> sameValue v' (VInt KInt 8080))"
proof -
  let ?t = "[(''server'', VMap [(''port'', VInt KInt 8080)])]"
  have h1: "wf (VMap ?t)" by simp
  have h2: "getValueAtPath (VMap ?t) ''server.port'' = Inr (VInt KInt 8080)"
    by (simp add: getValueAtPath_def splitPath_def)
  have h3: "splitPath ''server.port'' \<noteq> []" by (simp add: splitPath_def)
  have h4: "determineValueType (VInt KInt 8080) \<noteq> ValueTypeUnknown" by simp
  have h5: "\<not> hasSentinel (VInt KInt 8080)" by (simp add: hasSentinel_def)
  show ?thesis
    using h1 h2 h3 h4 h5 C4_mutate_changes_value[OF h1 h2 h3 h4 h5] by simp
qed

text \<open>
  C4 as stated fails. \<open>getValueAtPath\<close> succeeds on the empty path and returns the whole
  tree, a mapping, and \<open>modifyValueAtPath\<close> for the empty path and Map fails with EmptyPath.
  And when the mapping at the path already holds the inserted pair, \<open>modifyValueAtPath\<close>
  succeeds and the value at the path is the same as before.
\<close>

theorem C4_mutate_counterexample:
  "getValueAtPath (VMap [(''a'', VInt KInt 1)]) [] = Inr (VMap [(''a'', VInt KInt 1)])
   \<and> determineValueType (VMap [(''a'', VInt KInt 1)]) = ValueTypeMap
   \<and> modifyValueAtPath [(''a'', VInt KInt 1)] [] ValueTypeMap = Inl EmptyPath
   \<and> getValueAtPath (VMap [(''s'', VMap [(''helmhound-test-key'', VStr ''helmhound-test-value'')])]) ''s''
       = Inr (VMap [(''helmhound-test-key'', VStr ''helmhound-test-value'')])
   \<and> modifyValueAtPath [(''s'', VMap [(''helmhound-test-key'', VStr ''helmhound-test-value'')])] ''s''
         ValueTypeMap
       = Inr [(''s'', VMap [(''helmhound-test-key'', VStr ''helmhound-test-value'')])]"
  by (simp add: getValueAtPath_def modifyValueAtPath_def setValueAtPath_def splitPath_def)

section \<open>modifyValueAtPath and the caller's maps\<close>

lemma makeMap_simps:
  "fst (makeMap h) = free h"
  "free (snd (makeMap h)) = Suc (free h)"
  "objs (snd (makeMap h)) = (objs h)(free h := [])"
  by (simp_all add: makeMap_def)

lemma assign_simps:
  "free (assign a k v h) = free h"
  "objs (assign a k v h) = (objs h)(a := AList.update k v (objs h a))"
  by (simp_all add: assign_def)

lemma makeMap_fresh:
  assumes "freshClosed n h" "n \<le> free h"
  shows "freshClosed n (snd (makeMap h))"
  unfolding freshClosed_def
proof (intro allI impI)
  fix x k b
  assume asm: "n \<le> x \<and> x < free (snd (makeMap h)) \<and> (k, SRef b) \<in> set (objs (snd (makeMap h)) x)"
  have "x \<noteq> free h" using asm by (auto simp: makeMap_simps)
  then have "n \<le> x \<and> x < free h \<and> (k, SRef b) \<in> set (objs h x)"
    using asm by (simp add: makeMap_simps)
  then have "n \<le> b \<and> b < free h"
    using assms(1) unfolding freshClosed_def by blast
  then show "n \<le> b \<and> b < free (snd (makeMap h))" by (simp add: makeMap_simps)
qed

lemma makeMap_extends:
  assumes "freshClosed n h" "n \<le> free h"
  shows "extends n h (snd (makeMap h))"
  unfolding extends_def using makeMap_fresh[OF assms] assms(2)
  by (simp add: makeMap_simps)


lemma extends_trans: "extends n h h1 \<Longrightarrow> extends n h1 h2 \<Longrightarrow> extends n h h2"
  unfolding extends_def by auto

lemma extends_refl: "freshClosed n h \<Longrightarrow> extends n h h"
  by (simp add: extends_def)

lemma extends_free: "extends n h h' \<Longrightarrow> free h \<le> free h'"
  by (simp add: extends_def)

lemma extends_fresh: "extends n h h' \<Longrightarrow> freshClosed n h'"
  by (simp add: extends_def)

lemma set_update_cases:
  "x \<in> set (AList.update k v al) \<Longrightarrow> x = (k, v) \<or> x \<in> set al"
  by (induction al) (auto split: if_splits)

lemma assign_fresh:
  assumes "freshClosed n h" "\<And>b. v = SRef b \<Longrightarrow> n \<le> b \<and> b < free h"
  shows "freshClosed n (assign a k v h)"
  unfolding freshClosed_def
proof (intro allI impI)
  fix x k' b
  assume asm: "n \<le> x \<and> x < free (assign a k v h) \<and> (k', SRef b) \<in> set (objs (assign a k v h) x)"
  then have x: "n \<le> x" "x < free h" by (simp_all add: assign_simps)
  have "(k', SRef b) = (k, v) \<or> (k', SRef b) \<in> set (objs h x)"
  proof (cases "x = a")
    case True
    then have "(k', SRef b) \<in> set (AList.update k v (objs h a))"
      using asm by (simp add: assign_simps)
    then show ?thesis using set_update_cases True by fastforce
  next
    case False
    then show ?thesis using asm by (simp add: assign_simps)
  qed
  then have "n \<le> b \<and> b < free h"
  proof
    assume "(k', SRef b) = (k, v)"
    then show ?thesis using assms(2) by simp
  next
    assume "(k', SRef b) \<in> set (objs h x)"
    then show ?thesis using assms(1) x unfolding freshClosed_def by blast
  qed
  then show "n \<le> b \<and> b < free (assign a k v h)" by (simp add: assign_simps)
qed

lemma assign_extends:
  assumes "freshClosed n h" "n \<le> a" "\<And>b. v = SRef b \<Longrightarrow> n \<le> b \<and> b < free h"
  shows "extends n h (assign a k v h)"
  unfolding extends_def using assign_fresh[OF assms(1,3)] assms(2)
  by (simp add: assign_simps)

lemma copyEntriesS_SRef:
  "copyEntriesS (Suc f) ((key, SRef v) # rest) dst h =
     (case copyMapS f v (fst (makeMap h)) (snd (makeMap h)) of
        None \<Rightarrow> None
      | Some h2 \<Rightarrow> copyEntriesS f rest dst (assign dst key (SRef (fst (makeMap h))) h2))"
  by (simp add: case_prod_unfold Let_def)

lemma copyEntriesS_SSeq:
  "copyEntriesS (Suc f) ((key, SSeq v) # rest) dst h =
     (case copySliceS f v h of
        None \<Rightarrow> None
      | Some r \<Rightarrow> copyEntriesS f rest dst (assign dst key (SSeq (fst r)) (snd r)))"
  by (simp add: case_prod_unfold split: option.splits)

lemma copyEntriesS_scalar:
  "(\<And>v. value \<noteq> SRef v) \<Longrightarrow> (\<And>v. value \<noteq> SSeq v) \<Longrightarrow>
   copyEntriesS (Suc f) ((key, value) # rest) dst h
     = copyEntriesS f rest dst (assign dst key value h)"
  by (cases "value") auto

lemma copySliceS_SRef:
  "copySliceS (Suc f) (SRef v # rest) h =
     (case copyMapS f v (fst (makeMap h)) (snd (makeMap h)) of
        None \<Rightarrow> None
      | Some h2 \<Rightarrow>
          (case copySliceS f rest h2 of
             None \<Rightarrow> None
           | Some r \<Rightarrow> Some (SRef (fst (makeMap h)) # fst r, snd r)))"
  by (simp add: case_prod_unfold Let_def split: option.splits)

lemma copySliceS_SSeq:
  "copySliceS (Suc f) (SSeq v # rest) h =
     (case copySliceS f v h of
        None \<Rightarrow> None
      | Some r1 \<Rightarrow>
          (case copySliceS f rest (snd r1) of
             None \<Rightarrow> None
           | Some r \<Rightarrow> Some (SSeq (fst r1) # fst r, snd r)))"
  by (simp add: case_prod_unfold split: option.splits)

lemma copySliceS_scalar:
  "(\<And>v. item \<noteq> SRef v) \<Longrightarrow> (\<And>v. item \<noteq> SSeq v) \<Longrightarrow>
   copySliceS (Suc f) (item # rest) h
     = (case copySliceS f rest h of None \<Rightarrow> None | Some r \<Rightarrow> Some (item # fst r, snd r))"
  by (cases item) (auto simp: case_prod_unfold split: option.splits)

lemma copy_extends_fuel:
  "(\<forall>src dst h h'. copyMapS f src dst h = Some h' \<longrightarrow> n \<le> dst \<longrightarrow> dst < free h \<longrightarrow>
       freshClosed n h \<longrightarrow> extends n h h')
   \<and> (\<forall>es dst h h'. copyEntriesS f es dst h = Some h' \<longrightarrow> n \<le> dst \<longrightarrow> dst < free h \<longrightarrow>
       freshClosed n h \<longrightarrow> extends n h h')
   \<and> (\<forall>xs h ys h'. copySliceS f xs h = Some (ys, h') \<longrightarrow> n \<le> free h \<longrightarrow>
       freshClosed n h \<longrightarrow> extends n h h')"
proof (induction f)
  case 0
  then show ?case by simp
next
  case (Suc f)
  then have IHm: "\<And>src dst h h'. copyMapS f src dst h = Some h' \<Longrightarrow> n \<le> dst \<Longrightarrow> dst < free h \<Longrightarrow>
       freshClosed n h \<Longrightarrow> extends n h h'"
    and IHe: "\<And>es dst h h'. copyEntriesS f es dst h = Some h' \<Longrightarrow> n \<le> dst \<Longrightarrow> dst < free h \<Longrightarrow>
       freshClosed n h \<Longrightarrow> extends n h h'"
    and IHs: "\<And>xs h ys h'. copySliceS f xs h = Some (ys, h') \<Longrightarrow> n \<le> free h \<Longrightarrow>
       freshClosed n h \<Longrightarrow> extends n h h'"
    by blast+
  have m: "extends n h h'"
    if "copyMapS (Suc f) src dst h = Some h'" "n \<le> dst" "dst < free h" "freshClosed n h"
    for src dst h h'
    using that IHe[of "objs h src" dst h h'] by simp
  have e: "extends n h h'"
    if run: "copyEntriesS (Suc f) es dst h = Some h'" and dst: "n \<le> dst" "dst < free h"
      and inv: "freshClosed n h"
    for es dst h h'
  proof (cases es)
    case Nil
    then show ?thesis using run inv by (simp add: extends_refl)
  next
    case (Cons kv rest)
    obtain key "value" where kv: "kv = (key, value)" by (cases kv)
    have nfree: "n \<le> free h" using dst by simp
    have es: "es = (key, value) # rest" using Cons kv by simp
    consider (ref) v where "value = SRef v" | (seq) v where "value = SSeq v"
      | (scalar) "\<And>v. value \<noteq> SRef v" "\<And>v. value \<noteq> SSeq v"
      by (cases "value") auto
    then show ?thesis
    proof cases
      case ref
      let ?nested = "fst (makeMap h)" and ?h1 = "snd (makeMap h)"
      have e1: "extends n h ?h1" using makeMap_extends[OF inv nfree] .
      have run': "(case copyMapS f v ?nested ?h1 of None \<Rightarrow> None
                   | Some h2 \<Rightarrow> copyEntriesS f rest dst (assign dst key (SRef ?nested) h2)) = Some h'"
        using run unfolding es ref copyEntriesS_SRef .
      then obtain h2 where c: "copyMapS f v ?nested ?h1 = Some h2"
        and r: "copyEntriesS f rest dst (assign dst key (SRef ?nested) h2) = Some h'"
        by (cases "copyMapS f v ?nested ?h1") simp_all
      have e2: "extends n ?h1 h2"
        using IHm[OF c] nfree extends_fresh[OF e1] by (simp add: makeMap_simps)
      have nb: "n \<le> ?nested \<and> ?nested < free h2"
        using nfree extends_free[OF e2] by (simp add: makeMap_simps)
      have e3: "extends n h2 (assign dst key (SRef ?nested) h2)"
        by (rule assign_extends[OF extends_fresh[OF e2] dst(1)]) (use nb in simp)
      have "dst < free (assign dst key (SRef ?nested) h2)"
        using dst(2) extends_free[OF e1] extends_free[OF e2] by (simp add: assign_simps)
      then have e4: "extends n (assign dst key (SRef ?nested) h2) h'"
        using IHe[OF r dst(1) _ extends_fresh[OF e3]] by simp
      show ?thesis using e1 e2 e3 e4 extends_trans by blast
    next
      case seq
      have run': "(case copySliceS f v h of None \<Rightarrow> None
                   | Some r \<Rightarrow> copyEntriesS f rest dst (assign dst key (SSeq (fst r)) (snd r))) = Some h'"
        using run unfolding es seq copyEntriesS_SSeq .
      then obtain s h1 where c: "copySliceS f v h = Some (s, h1)"
        and r: "copyEntriesS f rest dst (assign dst key (SSeq s) h1) = Some h'"
        by (cases "copySliceS f v h") auto
      have e1: "extends n h h1" using IHs[OF c nfree inv] .
      have e2: "extends n h1 (assign dst key (SSeq s) h1)"
        by (rule assign_extends[OF extends_fresh[OF e1] dst(1)]) simp
      have "dst < free (assign dst key (SSeq s) h1)"
        using dst(2) extends_free[OF e1] by (simp add: assign_simps)
      then have e3: "extends n (assign dst key (SSeq s) h1) h'"
        using IHe[OF r dst(1) _ extends_fresh[OF e2]] by simp
      show ?thesis using e1 e2 e3 extends_trans by blast
    next
      case scalar
      have r: "copyEntriesS f rest dst (assign dst key value h) = Some h'"
        using run unfolding es copyEntriesS_scalar[OF scalar] .
      have e1: "extends n h (assign dst key value h)"
        using assign_extends[OF inv dst(1)] scalar(1) by blast
      have "dst < free (assign dst key value h)" using dst(2) by (simp add: assign_simps)
      then have e2: "extends n (assign dst key value h) h'"
        using IHe[OF r dst(1) _ extends_fresh[OF e1]] by simp
      show ?thesis using e1 e2 extends_trans by blast
    qed
  qed
  have s: "extends n h h'"
    if run: "copySliceS (Suc f) xs h = Some (ys, h')" and nfree: "n \<le> free h"
      and inv: "freshClosed n h"
    for xs h ys h'
  proof (cases xs)
    case Nil
    then show ?thesis using run inv by (simp add: extends_refl)
  next
    case (Cons item rest)
    consider (ref) v where "item = SRef v" | (seq) v where "item = SSeq v"
      | (scalar) "\<And>v. item \<noteq> SRef v" "\<And>v. item \<noteq> SSeq v"
      by (cases item) auto
    then show ?thesis
    proof cases
      case ref
      let ?nested = "fst (makeMap h)" and ?h1 = "snd (makeMap h)"
      have e1: "extends n h ?h1" using makeMap_extends[OF inv nfree] .
      have run': "(case copyMapS f v ?nested ?h1 of None \<Rightarrow> None
                   | Some h2 \<Rightarrow> (case copySliceS f rest h2 of None \<Rightarrow> None
                        | Some r \<Rightarrow> Some (SRef ?nested # fst r, snd r))) = Some (ys, h')"
        using run unfolding Cons ref copySliceS_SRef .
      then obtain h2 where c: "copyMapS f v ?nested ?h1 = Some h2"
        and r1: "(case copySliceS f rest h2 of None \<Rightarrow> None
                        | Some r \<Rightarrow> Some (SRef ?nested # fst r, snd r)) = Some (ys, h')"
        by (cases "copyMapS f v ?nested ?h1") simp_all
      then obtain d where r: "copySliceS f rest h2 = Some (d, h')"
        by (cases "copySliceS f rest h2") auto
      have e2: "extends n ?h1 h2"
        using IHm[OF c] nfree extends_fresh[OF e1] by (simp add: makeMap_simps)
      have "n \<le> free h2" using nfree extends_free[OF e1] extends_free[OF e2] by simp
      then have e3: "extends n h2 h'" using IHs[OF r _ extends_fresh[OF e2]] by simp
      show ?thesis using e1 e2 e3 extends_trans by blast
    next
      case seq
      have run': "(case copySliceS f v h of None \<Rightarrow> None
                   | Some r1 \<Rightarrow> (case copySliceS f rest (snd r1) of None \<Rightarrow> None
                        | Some r \<Rightarrow> Some (SSeq (fst r1) # fst r, snd r))) = Some (ys, h')"
        using run unfolding Cons seq copySliceS_SSeq .
      then obtain p where c0: "copySliceS f v h = Some p"
        and r1: "(case copySliceS f rest (snd p) of None \<Rightarrow> None
                        | Some r \<Rightarrow> Some (SSeq (fst p) # fst r, snd r)) = Some (ys, h')"
        by (cases "copySliceS f v h") simp_all
      obtain s h1 where p: "p = (s, h1)" by (cases p)
      have c: "copySliceS f v h = Some (s, h1)" using c0 p by simp
      obtain d where r: "copySliceS f rest h1 = Some (d, h')"
        using r1 p by (cases "copySliceS f rest h1") auto
      have e1: "extends n h h1" using IHs[OF c nfree inv] .
      have "n \<le> free h1" using nfree extends_free[OF e1] by simp
      then have e2: "extends n h1 h'" using IHs[OF r _ extends_fresh[OF e1]] by simp
      show ?thesis using e1 e2 extends_trans by blast
    next
      case scalar
      have "(case copySliceS f rest h of None \<Rightarrow> None | Some r \<Rightarrow> Some (item # fst r, snd r))
            = Some (ys, h')"
        using run unfolding Cons copySliceS_scalar[OF scalar] .
      then obtain d where r: "copySliceS f rest h = Some (d, h')"
        by (cases "copySliceS f rest h") auto
      show ?thesis using IHs[OF r nfree inv] .
    qed
  qed
  show ?case using m e s by blast
qed

lemma copyMapS_extends:
  "copyMapS f src dst h = Some h' \<Longrightarrow> n \<le> dst \<Longrightarrow> dst < free h \<Longrightarrow> freshClosed n h
     \<Longrightarrow> extends n h h'"
  using copy_extends_fuel[of f n] by blast


lemma setLoopS_extends:
  "setLoopS current ks v h = (h', e) \<Longrightarrow> n \<le> current \<Longrightarrow> current < free h \<Longrightarrow>
   freshClosed n h \<Longrightarrow> (\<And>b. v = SRef b \<Longrightarrow> n \<le> b \<and> b < free h) \<Longrightarrow> extends n h h'"
proof (induction current ks v h arbitrary: h' e rule: setLoopS.induct)
  case (1 current "value" h)
  then show ?case by (simp add: extends_refl)
next
  case (2 current finalKey "value" h)
  have "h' = assign current finalKey value h" using "2.prems"(1) by simp
  then show ?case using assign_extends[OF "2.prems"(4) "2.prems"(2)] "2.prems"(5) by blast
next
  case (3 current key k' rest "value" h)
  note prems = "3.prems"
  show ?case
  proof (cases "map_of (objs h current) key")
    case None
    let ?newMap = "fst (makeMap h)" and ?h1 = "snd (makeMap h)"
    have nfree: "n \<le> free h" using prems by simp
    have e1: "extends n h ?h1" using makeMap_extends[OF prems(4) nfree] .
    let ?h2 = "assign current key (SRef ?newMap) ?h1"
    have e2: "extends n ?h1 ?h2"
      by (rule assign_extends[OF extends_fresh[OF e1] prems(2)])
         (use nfree in \<open>simp add: makeMap_simps\<close>)
    have run: "setLoopS ?newMap (k' # rest) value ?h2 = (h', e)"
      using prems(1) None by (simp add: case_prod_unfold Let_def)
    have "extends n ?h2 h'"
    proof (rule "3.IH"(1)[OF None _ refl run])
      show "(?newMap, ?h1) = makeMap h" by simp
      show "n \<le> ?newMap" using nfree by (simp add: makeMap_simps)
      show "?newMap < free ?h2" by (simp add: assign_simps makeMap_simps)
      show "freshClosed n ?h2" using e2 by (rule extends_fresh)
      show "\<And>b. value = SRef b \<Longrightarrow> n \<le> b \<and> b < free ?h2"
        using prems(5) by (auto simp: assign_simps makeMap_simps)
    qed
    then show ?thesis using e1 e2 extends_trans by blast
  next
    case (Some nxt)
    show ?thesis
    proof (cases nxt)
      case (SRef nextMap)
      have "(key, SRef nextMap) \<in> set (objs h current)"
        using Some SRef by (auto dest: map_of_SomeD)
      then have nm: "n \<le> nextMap \<and> nextMap < free h"
        using prems(2,3,4) unfolding freshClosed_def by blast
      have run: "setLoopS nextMap (k' # rest) value h = (h', e)"
        using prems(1) Some SRef by simp
      show ?thesis
        using "3.IH"(2)[OF Some SRef run _ _ prems(4,5)] nm by simp
    qed (use prems Some in \<open>simp_all add: extends_refl\<close>)
  qed
qed

lemma newValueForS_extends:
  assumes "newValueForS fuel ty cur h = Some (r, h')" "freshClosed n h" "n \<le> free h"
  shows "extends n h h' \<and> (\<forall>b. r = Inr (SRef b) \<longrightarrow> n \<le> b \<and> b < free h')"
proof (cases "\<exists>mapVal. ty = ValueTypeMap \<and> cur = SRef mapVal")
  case True
  then obtain mapVal where ty: "ty = ValueTypeMap" and cur: "cur = SRef mapVal" by blast
  let ?modifiedMap = "fst (makeMap h)" and ?h1 = "snd (makeMap h)"
  have e1: "extends n h ?h1" using makeMap_extends[OF assms(2,3)] .
  have run: "(case copyMapS fuel mapVal ?modifiedMap ?h1 of None \<Rightarrow> None
              | Some h2 \<Rightarrow> Some (Inr (SRef ?modifiedMap),
                  assign ?modifiedMap ''helmhound-test-key'' (SStr ''helmhound-test-value'') h2))
             = Some (r, h')"
    using assms(1) by (simp add: ty cur case_prod_unfold Let_def)
  then obtain h2 where c: "copyMapS fuel mapVal ?modifiedMap ?h1 = Some h2"
    and r: "r = Inr (SRef ?modifiedMap)"
    and h': "h' = assign ?modifiedMap ''helmhound-test-key'' (SStr ''helmhound-test-value'') h2"
    by (cases "copyMapS fuel mapVal ?modifiedMap ?h1") auto
  have e2: "extends n ?h1 h2"
    using copyMapS_extends[OF c, of n] assms(3) extends_fresh[OF e1] by (simp add: makeMap_simps)
  have mm: "n \<le> ?modifiedMap" using assms(3) by (simp add: makeMap_simps)
  have e3: "extends n h2 h'"
    unfolding h' by (rule assign_extends[OF extends_fresh[OF e2] mm]) simp
  have "extends n h h'" using e1 e2 e3 extends_trans by blast
  moreover have "?modifiedMap < free h'"
    using extends_free[OF e2] by (simp add: h' assign_simps makeMap_simps)
  ultimately show ?thesis using r mm by simp
next
  case False
  have "h' = h \<and> (\<forall>b. r \<noteq> Inr (SRef b))"
  proof (cases ty)
    case ValueTypeMap
    then show ?thesis using assms(1) False by (cases cur) auto
  qed (use assms(1) in \<open>auto split: sval.splits\<close>)
  then show ?thesis using assms(2) by (simp add: extends_refl)
qed

lemma modifyValueAtPathS_extends:
  assumes "modifyValueAtPathS fuel values path valueType h = Some (r, h')"
  shows "free h \<le> free h' \<and> (\<forall>a<free h. objs h' a = objs h a)
         \<and> (\<forall>m. r = Inr m \<longrightarrow> free h \<le> m \<and> m < free h')"
proof -
  let ?n = "free h"
  let ?modifiedValues = "fst (makeMap h)" and ?h1 = "snd (makeMap h)"
  have inv0: "freshClosed ?n h" by (simp add: freshClosed_def)
  have e1: "extends ?n h ?h1" using makeMap_extends[OF inv0] by simp
  have mv: "?modifiedValues = free h" by (simp add: makeMap_simps)
  have run: "(case copyMapS fuel values ?modifiedValues ?h1 of
           None \<Rightarrow> None
         | Some h2 \<Rightarrow>
             (case getValueAtPathS h2 (SRef ?modifiedValues) path of
                Inl err \<Rightarrow> Some (Inl err, h2)
              | Inr currentValue \<Rightarrow>
                  (case newValueForS fuel valueType currentValue h2 of
                     None \<Rightarrow> None
                   | Some (Inl err, h3) \<Rightarrow> Some (Inl err, h3)
                   | Some (Inr newValue, h3) \<Rightarrow>
                       (case setValueAtPathS ?modifiedValues path newValue h3 of
                          (h4, Some err) \<Rightarrow> Some (Inl err, h4)
                        | (h4, None) \<Rightarrow> Some (Inr ?modifiedValues, h4))))) = Some (r, h')"
    using assms by (simp add: modifyValueAtPathS_def case_prod_unfold Let_def)
  then obtain h2 where c: "copyMapS fuel values ?modifiedValues ?h1 = Some h2"
    and run2: "(case getValueAtPathS h2 (SRef ?modifiedValues) path of
                Inl err \<Rightarrow> Some (Inl err, h2)
              | Inr currentValue \<Rightarrow>
                  (case newValueForS fuel valueType currentValue h2 of
                     None \<Rightarrow> None
                   | Some (Inl err, h3) \<Rightarrow> Some (Inl err, h3)
                   | Some (Inr newValue, h3) \<Rightarrow>
                       (case setValueAtPathS ?modifiedValues path newValue h3 of
                          (h4, Some err) \<Rightarrow> Some (Inl err, h4)
                        | (h4, None) \<Rightarrow> Some (Inr ?modifiedValues, h4)))) = Some (r, h')"
    by (cases "copyMapS fuel values ?modifiedValues ?h1") simp_all
  have e2: "extends ?n ?h1 h2"
    using copyMapS_extends[OF c, of ?n] extends_fresh[OF e1] by (simp add: makeMap_simps)
  have e12: "extends ?n h h2" using e1 e2 extends_trans by blast
  have mv2: "?modifiedValues < free h2" using extends_free[OF e2] by (simp add: makeMap_simps)
  show ?thesis
  proof (cases "getValueAtPathS h2 (SRef ?modifiedValues) path")
    case (Inl err)
    then have "h' = h2" "r = Inl err" using run2 by simp_all
    then show ?thesis using e12 by (simp add: extends_def)
  next
    case (Inr currentValue)
    then have run3: "(case newValueForS fuel valueType currentValue h2 of
                     None \<Rightarrow> None
                   | Some (Inl err, h3) \<Rightarrow> Some (Inl err, h3)
                   | Some (Inr newValue, h3) \<Rightarrow>
                       (case setValueAtPathS ?modifiedValues path newValue h3 of
                          (h4, Some err) \<Rightarrow> Some (Inl err, h4)
                        | (h4, None) \<Rightarrow> Some (Inr ?modifiedValues, h4))) = Some (r, h')"
      using run2 by simp
    then obtain r3 h3 where nv: "newValueForS fuel valueType currentValue h2 = Some (r3, h3)"
      by (cases "newValueForS fuel valueType currentValue h2") auto
    have "?n \<le> free h2" using extends_free[OF e12] .
    then have e3: "extends ?n h2 h3" and fresh: "\<forall>b. r3 = Inr (SRef b) \<longrightarrow> ?n \<le> b \<and> b < free h3"
      using newValueForS_extends[OF nv extends_fresh[OF e2], of] by simp_all
    have e13: "extends ?n h h3" using e12 e3 extends_trans by blast
    show ?thesis
    proof (cases r3)
      case (Inl err)
      then have "h' = h3" "r = Inl err" using run3 nv by simp_all
      then show ?thesis using e13 by (simp add: extends_def)
    next
      case (Inr newValue)
      obtain h4 e where s: "setValueAtPathS ?modifiedValues path newValue h3 = (h4, e)"
        by (cases "setValueAtPathS ?modifiedValues path newValue h3")
      have e4: "extends ?n h3 h4"
      proof (cases "path = []")
        case True
        then have "h4 = h3" using s by (simp add: setValueAtPathS_def)
        then show ?thesis using extends_fresh[OF e3] by (simp add: extends_refl)
      next
        case False
        then have sl: "setLoopS ?modifiedValues (splitPath path) newValue h3 = (h4, e)"
          using s by (simp add: setValueAtPathS_def)
        show ?thesis
        proof (rule setLoopS_extends[OF sl _ _ extends_fresh[OF e3]])
          show "free h \<le> ?modifiedValues" by (simp add: makeMap_simps)
          show "?modifiedValues < free h3" using mv2 extends_free[OF e3] by simp
          show "\<And>b. newValue = SRef b \<Longrightarrow> free h \<le> b \<and> b < free h3"
            using fresh Inr by simp
        qed
      qed
      have e14: "extends ?n h h4" using e13 e4 extends_trans by blast
      have res: "h' = h4 \<and> (r = Inr ?modifiedValues \<or> (\<exists>err. r = Inl err))"
        using run3 nv Inr s by (cases e) auto
      have "?modifiedValues < free h4" using mv2 extends_free[OF e3] extends_free[OF e4] by simp
      then show ?thesis using e14 res mv by (auto simp: extends_def)
    qed
  qed
qed

lemma represents_frame:
  "represents h v t \<Longrightarrow> \<forall>a<free h. objs h' a = objs h a \<Longrightarrow> free h \<le> free h' \<Longrightarrow>
   represents h' v t"
proof (induction t arbitrary: v)
  case (VSeq ts)
  then obtain xs where v: "v = SSeq xs" by (cases v) auto
  have "list_all2 (\<lambda>x t. represents h x t) xs ts" using VSeq.prems(1) v by simp
  then have "list_all2 (\<lambda>x t. represents h' x t) xs ts"
  proof (rule list.rel_mono_strong)
    fix x t assume "x \<in> set xs" "t \<in> set ts" "represents h x t"
    then show "represents h' x t" using VSeq.IH[of t x] VSeq.prems(2,3) by simp
  qed
  then show ?case by (simp add: v)
next
  case (VMap kvs)
  then obtain a where v: "v = SRef a" by (cases v) auto
  have a: "a < free h" and all: "list_all2 (\<lambda>e kv. fst e = fst kv \<and> represents h (snd e) (snd kv)) (objs h a) kvs"
    using VMap.prems(1) v by simp_all
  have "list_all2 (\<lambda>e kv. fst e = fst kv \<and> represents h' (snd e) (snd kv)) (objs h a) kvs"
    using all
  proof (rule list.rel_mono_strong)
    fix e kv assume "e \<in> set (objs h a)" "kv \<in> set kvs" "fst e = fst kv \<and> represents h (snd e) (snd kv)"
    then show "fst e = fst kv \<and> represents h' (snd e) (snd kv)"
      using VMap.IH[of kv "snd kv" "snd e"] VMap.prems(2,3) by (cases kv) auto
  qed
  then show ?case using a VMap.prems(2,3) by (simp add: v)
next
  case VNil
  then show ?case by (cases v) simp_all
next
  case (VStr s)
  then show ?case by (cases v) simp_all
next
  case (VInt k n)
  then show ?case by (cases v) simp_all
next
  case (VFloat k f)
  then show ?case by (cases v) simp_all
next
  case (VBool b)
  then show ?case by (cases v) simp_all
qed

text \<open>
  C5. Let the caller's reference \<open>values\<close> denote the tree \<open>t\<close> before the call. Whatever
  \<open>modifyValueAtPath\<close> returns, a new map or any error, \<open>values\<close> denotes the same tree \<open>t\<close>
  after the call: every map object that existed before the call has the contents it had,
  and a returned map is an object allocated during the call.
\<close>

theorem C5_input_tree_unchanged:
  assumes "represents h (SRef values) t"
    and "modifyValueAtPathS fuel values path valueType h = Some (r, h')"
  shows "represents h' (SRef values) t
         \<and> (\<forall>a<free h. objs h' a = objs h a)
         \<and> (\<forall>m. r = Inr m \<longrightarrow> free h \<le> m \<and> m < free h')"
  using represents_frame[OF assms(1)] modifyValueAtPathS_extends[OF assms(2)] by blast

lemma modify_example_run:
  "modifyValueAtPathS 6 0 ''server.port'' ValueTypeInt
      \<lparr>objs = (\<lambda>_. [])(0 := [(''server'', SRef 1)], 1 := [(''port'', SInt KInt 8080)]), free = 2\<rparr>
   = Some (Inr 2,
      \<lparr>objs = (\<lambda>_. [])(0 := [(''server'', SRef 1)], 1 := [(''port'', SInt KInt 8080)],
                        2 := [(''server'', SRef 3)], 3 := [(''port'', SInt KInt 8081)]), free = 4\<rparr>)"
  by (simp add: modifyValueAtPathS_def makeMap_def assign_def getValueAtPathS_def
      setValueAtPathS_def splitPath_def wrapInt_def eval_nat_numeral fun_upd_twist)

lemma modify_example_tree:
  "represents \<lparr>objs = (\<lambda>_. [])(0 := [(''server'', SRef 1)], 1 := [(''port'', SInt KInt 8080)]), free = 2\<rparr>
     (SRef 0) (VMap [(''server'', VMap [(''port'', VInt KInt 8080)])])"
  by simp

text \<open>
  The hypotheses of C5 hold of \<open>{server: {port: 8080}}\<close> held in two objects; the call
  returns a new map that denotes \<open>{server: {port: 8081}}\<close>.
\<close>

theorem C5_input_tree_unchanged_witness:
  "represents \<lparr>objs = (\<lambda>_. [])(0 := [(''server'', SRef 1)], 1 := [(''port'', SInt KInt 8080)]), free = 2\<rparr>
     (SRef 0) (VMap [(''server'', VMap [(''port'', VInt KInt 8080)])])
   \<and> (\<exists>r h'. modifyValueAtPathS 6 0 ''server.port'' ValueTypeInt
      \<lparr>objs = (\<lambda>_. [])(0 := [(''server'', SRef 1)], 1 := [(''port'', SInt KInt 8080)]), free = 2\<rparr>
      = Some (r, h')
    \<and> represents h' (SRef 0) (VMap [(''server'', VMap [(''port'', VInt KInt 8080)])])
    \<and> r = Inr 2
    \<and> represents h' (SRef 2) (VMap [(''server'', VMap [(''port'', VInt KInt 8081)])]))"
  using C5_input_tree_unchanged[OF modify_example_tree modify_example_run]
    modify_example_run modify_example_tree by simp

end
